theory Spec2Isabelle
  imports Main "HOL-Library.Sublist" "HOL-Library.List_Lexorder" "HOL-Library.Char_ord"
begin

section \<open>Strings\<close>

text \<open>
  A Python \<open>str\<close> is a sequence of code points. The embedding uses \<^typ>\<open>string\<close>:
  one \<^typ>\<open>char\<close> per code point, so it covers the strings whose code points lie
  below 256. All delimiters the scripts look for are ASCII.
\<close>

definition startswith :: "string \<Rightarrow> string \<Rightarrow> bool" where
  \<comment> \<open>\<open>s.startswith(p)\<close>\<close>
  "startswith s p = (take (length p) s = p)"

definition endswith :: "string \<Rightarrow> string \<Rightarrow> bool" where
  \<comment> \<open>\<open>s.endswith(p)\<close>\<close>
  "endswith s p = startswith (rev s) (rev p)"

fun str_contains :: "string \<Rightarrow> string \<Rightarrow> bool" where
  \<comment> \<open>\<open>sub in s\<close>\<close>
  "str_contains [] sub = (sub = [])"
| "str_contains (c # cs) sub = (startswith (c # cs) sub \<or> str_contains cs sub)"

definition strip_chars :: "(char \<Rightarrow> bool) \<Rightarrow> string \<Rightarrow> string" where
  \<comment> \<open>\<open>s.strip(chars)\<close>: the leading and the trailing characters of the set go\<close>
  "strip_chars P s = rev (dropWhile P (rev (dropWhile P s)))"

section \<open>Anchor normalization (md\_to\_html.py, \_normalize\_anchor)\<close>

text \<open>
  \<^verbatim>\<open>re.sub(r"-{2,}", "-", anchor)\<close>: the scan goes left to right; where a run of two
  or more hyphens starts, the greedy quantifier takes the whole run, one hyphen is
  written and the scan goes on behind the run; elsewhere the character is copied.
\<close>

function sub_hyphen_runs :: "string \<Rightarrow> string" where
  "sub_hyphen_runs [] = []"
| "sub_hyphen_runs (c # cs) =
     (if 2 \<le> length (takeWhile (\<lambda>x. x = CHR ''-'') (c # cs))
      then CHR ''-'' # sub_hyphen_runs (dropWhile (\<lambda>x. x = CHR ''-'') (c # cs))
      else c # sub_hyphen_runs cs)"
  by pat_completeness auto
termination
  by (relation "measure length") (auto simp: less_Suc_eq_le length_dropWhile_le split: if_splits)

definition normalize_anchor :: "string \<Rightarrow> string" where
  \<comment> \<open>\<open>re.sub(r"-{2,}", "-", anchor).strip("-")\<close>\<close>
  "normalize_anchor anchor = strip_chars (\<lambda>x. x = CHR ''-'') (sub_hyphen_runs anchor)"

text \<open>
  The specification's reading of the normalization, in the words of Python: the
  non-empty pieces between the hyphens, joined by single hyphens, that is
  \<^verbatim>\<open>"-".join(w for w in s.split("-") if w)\<close>. Every run of hyphens inside the anchor
  becomes one hyphen (a single hyphen stays), the runs at the ends go.
\<close>

fun split_hyphen :: "string \<Rightarrow> string list" where
  \<comment> \<open>\<open>s.split("-")\<close>\<close>
  "split_hyphen [] = [[]]"
| "split_hyphen (c # cs) =
     (if c = CHR ''-'' then [] # split_hyphen cs
      else (case split_hyphen cs of [] \<Rightarrow> [[c]] | w # ws \<Rightarrow> (c # w) # ws))"

fun join_hyphen :: "string list \<Rightarrow> string" where
  \<comment> \<open>\<open>"-".join(ws)\<close>\<close>
  "join_hyphen [] = []"
| "join_hyphen [w] = w"
| "join_hyphen (w # v # ws) = w @ CHR ''-'' # join_hyphen (v # ws)"

definition spec_normalize :: "string \<Rightarrow> string" where
  "spec_normalize s = join_hyphen (filter (\<lambda>w. w \<noteq> []) (split_hyphen s))"

section \<open>Properties of anchor normalization\<close>

lemma startswith_Nil [simp]: "startswith s []"
  by (simp add: startswith_def)

lemma startswith_Cons_Cons [simp]:
  "startswith (c # cs) (p # ps) = (c = p \<and> startswith cs ps)"
  by (simp add: startswith_def)

lemma startswith_Nil_Cons [simp]: "\<not> startswith [] (p # ps)"
  by (simp add: startswith_def)

lemma startswith_append: "startswith (p @ t) p"
  by (simp add: startswith_def)

lemma startswith_iff: "startswith s p \<longleftrightarrow> (\<exists>t. s = p @ t)"
proof
  assume "startswith s p"
  then have "s = p @ drop (length p) s"
    by (metis append_take_drop_id startswith_def)
  then show "\<exists>t. s = p @ t" ..
next
  assume "\<exists>t. s = p @ t"
  then show "startswith s p" by (auto simp: startswith_def)
qed

lemma str_contains_iff: "str_contains s sub \<longleftrightarrow> (\<exists>u v. s = u @ sub @ v)"
proof (induction s)
  case Nil
  then show ?case by auto
next
  case (Cons c cs)
  show ?case
  proof
    assume "str_contains (c # cs) sub"
    then consider "startswith (c # cs) sub" | "str_contains cs sub" by auto
    then show "\<exists>u v. c # cs = u @ sub @ v"
    proof cases
      case 1
      then obtain t where "c # cs = sub @ t" by (auto simp: startswith_iff)
      then have "c # cs = [] @ sub @ t" by simp
      then show ?thesis by blast
    next
      case 2
      then obtain u v where "cs = u @ sub @ v" using Cons.IH by auto
      then have "c # cs = (c # u) @ sub @ v" by simp
      then show ?thesis by blast
    qed
  next
    assume "\<exists>u v. c # cs = u @ sub @ v"
    then obtain u v where uv: "c # cs = u @ sub @ v" by auto
    show "str_contains (c # cs) sub"
    proof (cases u)
      case Nil
      then have "startswith (c # cs) sub" using uv by (simp add: startswith_append)
      then show ?thesis by simp
    next
      case (Cons d u')
      then have "cs = u' @ sub @ v" using uv by simp
      then show ?thesis using Cons.IH by auto
    qed
  qed
qed

declare sub_hyphen_runs.simps(2) [simp del]

lemma startswith_single: "startswith s [c] \<longleftrightarrow> s \<noteq> [] \<and> hd s = c"
  by (cases s) auto

lemma hyphen_run_ge2:
  "2 \<le> length (takeWhile (\<lambda>x. x = CHR ''-'') (c # cs)) \<longleftrightarrow>
     c = CHR ''-'' \<and> cs \<noteq> [] \<and> hd cs = CHR ''-''"
  by (cases cs) auto

lemma sub_hyphen_runs_run [simp]:
  "sub_hyphen_runs (CHR ''-'' # CHR ''-'' # cs) =
     CHR ''-'' # sub_hyphen_runs (dropWhile (\<lambda>x. x = CHR ''-'') cs)"
  by (subst sub_hyphen_runs.simps(2)) simp

lemma sub_hyphen_runs_copy [simp]:
  "\<not> (c = CHR ''-'' \<and> cs \<noteq> [] \<and> hd cs = CHR ''-'') \<Longrightarrow>
     sub_hyphen_runs (c # cs) = c # sub_hyphen_runs cs"
  by (subst sub_hyphen_runs.simps(2)) (simp only: hyphen_run_ge2 if_False)

lemma sub_hyphen_runs_hd:
  "s \<noteq> [] \<Longrightarrow> sub_hyphen_runs s \<noteq> [] \<and> hd (sub_hyphen_runs s) = hd s"
proof (cases s)
  case Nil
  then show "s \<noteq> [] \<Longrightarrow> ?thesis" by simp
next
  case (Cons c cs)
  show ?thesis
    unfolding Cons by (subst sub_hyphen_runs.simps(2), simp split: if_splits)+
qed

lemma sub_hyphen_runs_no_run: "\<not> str_contains (sub_hyphen_runs s) ''--''"
proof (induction s rule: sub_hyphen_runs.induct)
  case 1
  then show ?case by simp
next
  case (2 c cs)
  let ?P = "\<lambda>x. x = CHR ''-''"
  show ?case
  proof (cases "2 \<le> length (takeWhile ?P (c # cs))")
    case True
    let ?d = "dropWhile ?P (c # cs)"
    have ih: "\<not> str_contains (sub_hyphen_runs ?d) ''--''"
      using 2(1) True by simp
    have "\<not> startswith (sub_hyphen_runs ?d) ''-''"
    proof (cases "?d = []")
      case True
      then show ?thesis by simp
    next
      case False
      then have "hd ?d \<noteq> CHR ''-''" using hd_dropWhile [of ?P "c # cs"] by blast
      then show ?thesis
        using sub_hyphen_runs_hd [OF False] by (simp add: startswith_single)
    qed
    then show ?thesis using ih True
      by (subst sub_hyphen_runs.simps(2)) simp
  next
    case False
    have ih: "\<not> str_contains (sub_hyphen_runs cs) ''--''"
      using 2(2) False by simp
    have "\<not> (c = CHR ''-'' \<and> startswith (sub_hyphen_runs cs) ''-'')"
    proof
      assume a: "c = CHR ''-'' \<and> startswith (sub_hyphen_runs cs) ''-''"
      then have "cs \<noteq> []" by auto
      then have "cs \<noteq> [] \<and> hd cs = CHR ''-''"
        using a sub_hyphen_runs_hd [of cs] by (simp add: startswith_single)
      then show False using a False hyphen_run_ge2 [of c cs] by blast
    qed
    then show ?thesis using ih False
      by (subst sub_hyphen_runs.simps(2)) auto
  qed
qed

lemma sub_hyphen_runs_id: "\<not> str_contains s ''--'' \<Longrightarrow> sub_hyphen_runs s = s"
proof (induction s)
  case Nil
  then show ?case by simp
next
  case (Cons c cs)
  then have n: "\<not> startswith (c # cs) ''--''" and r: "\<not> str_contains cs ''--''"
    by auto
  have "\<not> 2 \<le> length (takeWhile (\<lambda>x. x = CHR ''-'') (c # cs))"
    using n unfolding hyphen_run_ge2 by (cases cs) auto
  then show ?case using Cons.IH [OF r]
    by (subst sub_hyphen_runs.simps(2)) simp
qed

lemma strip_chars_infix: "\<exists>l r. s = l @ strip_chars P s @ r"
proof -
  let ?d = "dropWhile P s"
  have "rev ?d = takeWhile P (rev ?d) @ dropWhile P (rev ?d)" by simp
  then have "?d = strip_chars P s @ rev (takeWhile P (rev ?d))"
    unfolding strip_chars_def by (metis rev_append rev_rev_ident)
  then have "s = takeWhile P s @ strip_chars P s @ rev (takeWhile P (rev ?d))"
    by (metis takeWhile_dropWhile_id)
  then show ?thesis by blast
qed

lemma strip_chars_contains:
  "str_contains (strip_chars P s) sub \<Longrightarrow> str_contains s sub"
proof -
  assume "str_contains (strip_chars P s) sub"
  then obtain u v where uv: "strip_chars P s = u @ sub @ v"
    by (auto simp: str_contains_iff)
  obtain l r where "s = l @ strip_chars P s @ r" using strip_chars_infix by blast
  then have "s = (l @ u) @ sub @ (v @ r)" using uv by simp
  then show ?thesis unfolding str_contains_iff by blast
qed

lemma strip_chars_last:
  "strip_chars P s \<noteq> [] \<Longrightarrow> \<not> P (last (strip_chars P s))"
  unfolding strip_chars_def
  using hd_dropWhile [of P "rev (dropWhile P s)"] by (simp add: last_rev)

lemma strip_chars_hd:
  assumes "strip_chars P s \<noteq> []"
  shows "\<not> P (hd (strip_chars P s))"
proof -
  let ?d = "dropWhile P s"
  have "rev ?d = takeWhile P (rev ?d) @ dropWhile P (rev ?d)" by simp
  then have d: "?d = strip_chars P s @ rev (takeWhile P (rev ?d))"
    unfolding strip_chars_def by (metis rev_append rev_rev_ident)
  have "?d \<noteq> []"
  proof
    assume "?d = []"
    with d have "strip_chars P s = []" by simp
    with assms show False by simp
  qed
  then have "\<not> P (hd ?d)" by (rule hd_dropWhile)
  moreover have "hd ?d = hd (strip_chars P s)" using d assms by (metis hd_append2)
  ultimately show ?thesis by simp
qed

lemma strip_chars_fixed:
  assumes "s = [] \<or> \<not> P (hd s) \<and> \<not> P (last s)"
  shows "strip_chars P s = s"
proof (cases "s = []")
  case True
  then show ?thesis by (simp add: strip_chars_def)
next
  case False
  then have h: "\<not> P (hd s)" and l: "\<not> P (last s)" using assms by auto
  have 1: "dropWhile P s = s" using h by (simp add: dropWhile_eq_self_iff)
  have "hd (rev s) = last s" using False by (simp add: hd_rev)
  then have 2: "dropWhile P (rev s) = rev s" using l by (simp add: dropWhile_eq_self_iff)
  show ?thesis by (simp add: strip_chars_def 1 2)
qed

lemma strip_chars_idem: "strip_chars P (strip_chars P s) = strip_chars P s"
proof (cases "strip_chars P s = []")
  case True
  show ?thesis unfolding True by (simp add: strip_chars_def)
next
  case False
  show ?thesis
    by (rule strip_chars_fixed) (simp add: strip_chars_hd [OF False] strip_chars_last [OF False])
qed

lemma filter_dropWhile_neg:
  "filter (\<lambda>x. \<not> P x) (dropWhile P t) = filter (\<lambda>x. \<not> P x) t"
  by (induction t) auto

lemma filter_sub_hyphen_runs:
  "filter (\<lambda>x. x \<noteq> CHR ''-'') (sub_hyphen_runs s) = filter (\<lambda>x. x \<noteq> CHR ''-'') s"
proof (induction s rule: sub_hyphen_runs.induct)
  case 1
  then show ?case by simp
next
  case (2 c cs)
  let ?P = "\<lambda>x. x = CHR ''-''"
  show ?case
  proof (cases "2 \<le> length (takeWhile ?P (c # cs))")
    case True
    have c: "c = CHR ''-''" using True by (simp split: if_splits)
    have "filter (\<lambda>x. \<not> ?P x) (dropWhile ?P (c # cs)) = filter (\<lambda>x. \<not> ?P x) (c # cs)"
      by (rule filter_dropWhile_neg)
    then show ?thesis using 2(1) True c
      by (subst sub_hyphen_runs.simps(2)) simp
  next
    case False
    then show ?thesis using 2(2)
      by (subst sub_hyphen_runs.simps(2)) simp
  qed
qed

lemma filter_strip_chars: "filter (\<lambda>x. \<not> P x) (strip_chars P s) = filter (\<lambda>x. \<not> P x) s"
  unfolding strip_chars_def rev_filter [symmetric] filter_dropWhile_neg by simp

text \<open>
  C1. Anchor normalization is idempotent: normalizing a normalized anchor changes
  nothing.
\<close>

theorem normalize_anchor_idempotent:
  "normalize_anchor (normalize_anchor s) = normalize_anchor s"
proof -
  let ?P = "\<lambda>x. x = CHR ''-''"
  have "\<not> str_contains (normalize_anchor s) ''--''"
    unfolding normalize_anchor_def
    using strip_chars_contains sub_hyphen_runs_no_run by blast
  then have "sub_hyphen_runs (normalize_anchor s) = normalize_anchor s"
    by (rule sub_hyphen_runs_id)
  then have "normalize_anchor (normalize_anchor s) = strip_chars ?P (normalize_anchor s)"
    by (simp add: normalize_anchor_def)
  also have "\<dots> = normalize_anchor s"
    unfolding normalize_anchor_def by (rule strip_chars_idem)
  finally show ?thesis .
qed

lemma split_hyphen_not_Nil [simp]: "split_hyphen s \<noteq> []"
  by (induction s) (auto split: list.splits)

lemma split_hyphen_Cons:
  "c \<noteq> CHR ''-'' \<Longrightarrow> split_hyphen (c # cs) = (c # hd (split_hyphen cs)) # tl (split_hyphen cs)"
  by (cases "split_hyphen cs") auto

lemma split_hyphen_hyphen: "split_hyphen (CHR ''-'' # cs) = [] # split_hyphen cs"
  by simp

declare split_hyphen.simps(2) [simp del]

lemma join_hyphen_Cons: "ws \<noteq> [] \<Longrightarrow> join_hyphen ((c # w) # tl ws) = c # join_hyphen (w # tl ws)"
  by (cases "tl ws") auto

lemma join_split_hyphen: "join_hyphen (split_hyphen s) = s"
proof (induction s)
  case Nil
  then show ?case by simp
next
  case (Cons c s)
  obtain w ws where sp: "split_hyphen s = w # ws" by (cases "split_hyphen s") auto
  show ?case
  proof (cases "c = CHR ''-''")
    case True
    then show ?thesis using Cons sp by (simp add: split_hyphen_hyphen)
  next
    case False
    have "join_hyphen ((c # w) # ws) = c # join_hyphen (w # ws)" by (cases ws) auto
    then show ?thesis using False Cons sp by (simp add: split_hyphen_Cons)
  qed
qed

lemma hd_split_hyphen_Nil: "hd (split_hyphen s) = [] \<longleftrightarrow> s = [] \<or> hd s = CHR ''-''"
proof (cases s)
  case Nil
  then show ?thesis by simp
next
  case (Cons c cs)
  then show ?thesis
    by (cases "c = CHR ''-''") (simp_all add: split_hyphen_hyphen split_hyphen_Cons)
qed

lemma Nil_in_tl_split_hyphen:
  "[] \<in> set (tl (split_hyphen s)) \<longleftrightarrow> (s \<noteq> [] \<and> last s = CHR ''-'') \<or> str_contains s ''--''"
proof (induction s)
  case Nil
  then show ?case by simp
next
  case (Cons c s)
  show ?case
  proof (cases "c = CHR ''-''")
    case True
    have "[] \<in> set (split_hyphen s) \<longleftrightarrow> hd (split_hyphen s) = [] \<or> [] \<in> set (tl (split_hyphen s))"
      by (cases "split_hyphen s") auto
    then show ?thesis
      using True Cons hd_split_hyphen_Nil [of s]
      by (cases s) (auto simp: startswith_single split_hyphen_hyphen)
  next
    case False
    then show ?thesis
      using Cons by (cases s) (auto simp: split_hyphen_Cons)
  qed
qed

lemma spec_normalize_fixed:
  assumes "\<not> str_contains t ''--''" "\<not> startswith t ''-''" "\<not> endswith t ''-''"
  shows "spec_normalize t = t"
proof (cases "t = []")
  case True
  then show ?thesis by (simp add: spec_normalize_def)
next
  case False
  have l: "last t \<noteq> CHR ''-''"
    using assms(3) False by (simp add: endswith_def startswith_single hd_rev)
  have h: "hd t \<noteq> CHR ''-''"
    using assms(2) False by (simp add: startswith_single)
  have "[] \<notin> set (tl (split_hyphen t))"
    using Nil_in_tl_split_hyphen [of t] assms(1) l by simp
  moreover have "hd (split_hyphen t) \<noteq> []"
    using hd_split_hyphen_Nil [of t] False h by simp
  ultimately have "[] \<notin> set (split_hyphen t)"
    by (cases "split_hyphen t") auto
  then have "filter (\<lambda>w. w \<noteq> []) (split_hyphen t) = split_hyphen t"
    by (simp add: filter_id_conv) metis
  then show ?thesis by (simp add: spec_normalize_def join_split_hyphen)
qed

lemma split_hyphen_hd_tl: "split_hyphen s = hd (split_hyphen s) # tl (split_hyphen s)"
  by (cases "split_hyphen s") auto

lemma words_dropWhile:
  "filter (\<lambda>w. w \<noteq> []) (split_hyphen (dropWhile (\<lambda>x. x = CHR ''-'') s)) =
   filter (\<lambda>w. w \<noteq> []) (split_hyphen s)"
  by (induction s) (simp_all add: split_hyphen_hyphen)

lemma sub_hyphen_runs_segments:
  "hd (split_hyphen (sub_hyphen_runs s)) = hd (split_hyphen s) \<and>
   filter (\<lambda>w. w \<noteq> []) (tl (split_hyphen (sub_hyphen_runs s))) =
   filter (\<lambda>w. w \<noteq> []) (tl (split_hyphen s))"
proof (induction s rule: sub_hyphen_runs.induct)
  case 1
  then show ?case by simp
next
  case (2 c cs)
  let ?P = "\<lambda>x. x = CHR ''-''"
  let ?ne = "filter (\<lambda>w :: string. w \<noteq> [])"
  have w: "?ne (split_hyphen (sub_hyphen_runs t)) = ?ne (split_hyphen t)"
    if "hd (split_hyphen (sub_hyphen_runs t)) = hd (split_hyphen t) \<and>
      ?ne (tl (split_hyphen (sub_hyphen_runs t))) = ?ne (tl (split_hyphen t))" for t
    using that split_hyphen_hd_tl [of t] split_hyphen_hd_tl [of "sub_hyphen_runs t"]
    by (metis filter.simps(2))
  show ?case
  proof (cases "2 \<le> length (takeWhile ?P (c # cs))")
    case True
    then have c: "c = CHR ''-''" by (simp split: if_splits)
    have s: "sub_hyphen_runs (c # cs) = CHR ''-'' # sub_hyphen_runs (dropWhile ?P (c # cs))"
      using True by (subst sub_hyphen_runs.simps(2)) simp
    have "?ne (split_hyphen (sub_hyphen_runs (dropWhile ?P (c # cs)))) =
        ?ne (split_hyphen (dropWhile ?P (c # cs)))"
      using 2(1) [OF True] by (rule w)
    also have "\<dots> = ?ne (split_hyphen cs)"
      using words_dropWhile [of "c # cs"] c by (simp add: split_hyphen_hyphen)
    finally show ?thesis unfolding s using c by (simp add: split_hyphen_hyphen)
  next
    case False
    have s: "sub_hyphen_runs (c # cs) = c # sub_hyphen_runs cs"
      using False by (subst sub_hyphen_runs.simps(2)) simp
    show ?thesis
    proof (cases "c = CHR ''-''")
      case True
      then show ?thesis
        unfolding s using w [OF 2(2) [OF False]] by (simp add: split_hyphen_hyphen)
    next
      case c: False
      then show ?thesis
        unfolding s using 2(2) [OF False] by (simp add: split_hyphen_Cons)
    qed
  qed
qed

lemma words_sub_hyphen_runs:
  "filter (\<lambda>w. w \<noteq> []) (split_hyphen (sub_hyphen_runs s)) =
   filter (\<lambda>w. w \<noteq> []) (split_hyphen s)"
  using sub_hyphen_runs_segments [of s] split_hyphen_hd_tl [of s]
    split_hyphen_hd_tl [of "sub_hyphen_runs s"]
  by (metis filter.simps(2))

lemma append_hyphen_segments:
  "hd (split_hyphen (m @ ''-'')) = hd (split_hyphen m) \<and>
   filter (\<lambda>w. w \<noteq> []) (tl (split_hyphen (m @ ''-''))) =
   filter (\<lambda>w. w \<noteq> []) (tl (split_hyphen m))"
proof (induction m)
  case Nil
  then show ?case by (simp add: split_hyphen_hyphen)
next
  case (Cons c m)
  show ?case
  proof (cases "c = CHR ''-''")
    case True
    have "filter (\<lambda>w. w \<noteq> []) (split_hyphen (m @ ''-'')) = filter (\<lambda>w. w \<noteq> []) (split_hyphen m)"
      using Cons split_hyphen_hd_tl [of m] split_hyphen_hd_tl [of "m @ ''-''"]
      by (metis filter.simps(2))
    then show ?thesis using True by (simp add: split_hyphen_hyphen)
  next
    case False
    then show ?thesis using Cons by (simp add: split_hyphen_Cons)
  qed
qed

lemma words_append_hyphens:
  "\<forall>x\<in>set r. x = CHR ''-'' \<Longrightarrow>
   filter (\<lambda>w. w \<noteq> []) (split_hyphen (m @ r)) = filter (\<lambda>w. w \<noteq> []) (split_hyphen m)"
proof (induction r arbitrary: m)
  case Nil
  then show ?case by simp
next
  case (Cons x r)
  then have x: "x = CHR ''-''" and r: "\<forall>x\<in>set r. x = CHR ''-''" by simp_all
  have "filter (\<lambda>w. w \<noteq> []) (split_hyphen ((m @ ''-'') @ r)) =
      filter (\<lambda>w. w \<noteq> []) (split_hyphen (m @ ''-''))"
    using Cons.IH [OF r] .
  also have "\<dots> = filter (\<lambda>w. w \<noteq> []) (split_hyphen m)"
    using append_hyphen_segments [of m] split_hyphen_hd_tl [of m]
      split_hyphen_hd_tl [of "m @ ''-''"]
    by (metis filter.simps(2))
  finally show ?case using x by simp
qed

lemma strip_chars_decomp:
  "dropWhile P s = strip_chars P s @ rev (takeWhile P (rev (dropWhile P s)))"
proof -
  let ?d = "dropWhile P s"
  have "rev ?d = takeWhile P (rev ?d) @ dropWhile P (rev ?d)" by simp
  then show ?thesis
    unfolding strip_chars_def by (metis rev_append rev_rev_ident)
qed

lemma words_strip_chars:
  "filter (\<lambda>w. w \<noteq> []) (split_hyphen (strip_chars (\<lambda>x. x = CHR ''-'') s)) =
   filter (\<lambda>w. w \<noteq> []) (split_hyphen s)"
proof -
  let ?P = "\<lambda>x. x = CHR ''-''"
  let ?r = "rev (takeWhile ?P (rev (dropWhile ?P s)))"
  have r: "\<forall>x\<in>set ?r. x = CHR ''-''" using set_takeWhileD by fastforce
  have "filter (\<lambda>w. w \<noteq> []) (split_hyphen (strip_chars ?P s @ ?r)) =
      filter (\<lambda>w. w \<noteq> []) (split_hyphen (strip_chars ?P s))"
    using r by (rule words_append_hyphens)
  then have "filter (\<lambda>w. w \<noteq> []) (split_hyphen (dropWhile ?P s)) =
      filter (\<lambda>w. w \<noteq> []) (split_hyphen (strip_chars ?P s))"
    using strip_chars_decomp [of ?P s] by simp
  then show ?thesis using words_dropWhile [of s] by simp
qed

lemma normalize_anchor_normal:
  "\<not> str_contains (normalize_anchor s) ''--''"
  "\<not> startswith (normalize_anchor s) ''-''"
  "\<not> endswith (normalize_anchor s) ''-''"
proof -
  let ?P = "\<lambda>x. x = CHR ''-''"
  show "\<not> str_contains (normalize_anchor s) ''--''"
    unfolding normalize_anchor_def
    using strip_chars_contains sub_hyphen_runs_no_run by blast
  show "\<not> startswith (normalize_anchor s) ''-''"
    unfolding normalize_anchor_def startswith_single
    using strip_chars_hd [of ?P] by blast
  show "\<not> endswith (normalize_anchor s) ''-''"
    unfolding normalize_anchor_def endswith_def
    using strip_chars_last [of ?P "sub_hyphen_runs s"]
    by (auto simp: startswith_single hd_rev)
qed

lemma normalize_anchor_spec: "normalize_anchor s = spec_normalize s"
proof -
  have "spec_normalize (normalize_anchor s) = normalize_anchor s"
    using normalize_anchor_normal by (rule spec_normalize_fixed)
  moreover have "spec_normalize (normalize_anchor s) = spec_normalize s"
    unfolding spec_normalize_def normalize_anchor_def words_strip_chars words_sub_hyphen_runs ..
  ultimately show ?thesis by simp
qed

text \<open>
  C2. Anchor normalization maps \<open>a----b\<close> to \<open>a-b\<close> and \<open>-lead-trail-\<close> to
  \<open>lead-trail\<close>. For every input the output is the non-empty pieces between the
  hyphens of the input joined by single hyphens (\<open>spec_normalize\<close>): every run of
  hyphens between two pieces becomes one hyphen, a single hyphen between two pieces
  stays, and the hyphens at the ends go. So the output has no two hyphens in a row,
  neither starts nor ends with a hyphen, and keeps the other characters in their order.
\<close>

theorem normalize_anchor_collapses:
  "normalize_anchor ''a----b'' = ''a-b'' \<and>
   normalize_anchor ''-lead-trail-'' = ''lead-trail'' \<and>
   normalize_anchor ''design--goals-and-scope'' = ''design-goals-and-scope'' \<and>
   normalize_anchor s = spec_normalize s \<and>
   \<not> str_contains (normalize_anchor s) ''--'' \<and>
   \<not> startswith (normalize_anchor s) ''-'' \<and>
   \<not> endswith (normalize_anchor s) ''-'' \<and>
   filter (\<lambda>x. x \<noteq> CHR ''-'') (normalize_anchor s) = filter (\<lambda>x. x \<noteq> CHR ''-'') s"
proof -
  let ?P = "\<lambda>x. x = CHR ''-''"
  have 1: "normalize_anchor ''a----b'' = ''a-b''"
    by (simp add: normalize_anchor_def strip_chars_def)
  have 2: "normalize_anchor ''-lead-trail-'' = ''lead-trail''"
    by (simp add: normalize_anchor_def strip_chars_def)
  have 3: "normalize_anchor ''design--goals-and-scope'' = ''design-goals-and-scope''"
    by (simp add: normalize_anchor_def strip_chars_def)
  have 4: "normalize_anchor s = spec_normalize s"
    by (rule normalize_anchor_spec)
  have 6: "filter (\<lambda>x. x \<noteq> CHR ''-'') (normalize_anchor s) = filter (\<lambda>x. x \<noteq> CHR ''-'') s"
    unfolding normalize_anchor_def
    using filter_strip_chars [of ?P] filter_sub_hyphen_runs by simp
  show ?thesis using 1 2 3 4 normalize_anchor_normal [of s] 6 by blast
qed

section \<open>Intra-document link rewriting (md\_to\_html.py, rewrite\_md\_links)\<close>

text \<open>
  The pattern is \<^verbatim>\<open>href="([^"]+?)\.md(#[^"]*)??"\<close>. Behind \<^verbatim>\<open>href="\<close> group 1 is
  lazy: it takes one character that is not a quote, and one more each time the rest of
  the pattern fails behind it. The rest is \<^verbatim>\<open>.md\<close>, then the optional group 2, then
  the closing quote; group 2 is lazy too, so the quote is tried first, and a \<^verbatim>\<open>#\<close>
  with every character up to the next quote second (giving one of them back leaves a
  character that is not a quote in front of the quote the pattern asks for).
\<close>

definition md_tail :: "string \<Rightarrow> (string option \<times> string) option" where
  \<comment> \<open>\<^verbatim>\<open>\.md(#[^"]*)??"\<close> at the start of \<open>s\<close>: group 2 and what follows the match\<close>
  \<open>md_tail s =
     (if startswith s ''.md'' then
        (case drop 3 s of
           [] \<Rightarrow> None
         | c # r \<Rightarrow>
             if c = CHR ''"'' then Some (None, r)
             else if c = CHR ''#'' then
               (case dropWhile (\<lambda>x. x \<noteq> CHR ''"'') r of
                  [] \<Rightarrow> None
                | _ # rest \<Rightarrow> Some (Some (CHR ''#'' # takeWhile (\<lambda>x. x \<noteq> CHR ''"'') r), rest))
             else None)
      else None)\<close>

fun md_path :: "string \<Rightarrow> string \<Rightarrow> (string \<times> string option \<times> string) option" where
  \<comment> \<open>group 1 holds \<open>acc\<close>; try the rest of the pattern, else take one more character\<close>
  \<open>md_path acc [] = None\<close>
| \<open>md_path acc (c # cs) =
     (case md_tail (c # cs) of
        Some (anchor, rest) \<Rightarrow> Some (acc, anchor, rest)
      | None \<Rightarrow> if c = CHR ''"'' then None else md_path (acc @ [c]) cs)\<close>

definition match_md_href :: "string \<Rightarrow> (string \<times> string option \<times> string) option" where
  \<comment> \<open>the pattern at the start of \<open>s\<close>: group 1, group 2, the text behind the match\<close>
  \<open>match_md_href s =
     (if startswith s ''href="'' then
        (case drop 6 s of
           [] \<Rightarrow> None
         | c # cs \<Rightarrow> if c = CHR ''"'' then None else md_path [c] cs)
      else None)\<close>

definition fix_md_href :: "string \<Rightarrow> string option \<Rightarrow> string" where
  \<comment> \<open>the replacement function \<open>_fix\<close>; \<open>m.group(2) or ""\<close> is the empty string for
      a group that took no part\<close>
  \<open>fix_md_href path group2 =
     (let anchor = (case group2 of None \<Rightarrow> [] | Some a \<Rightarrow> a);
          anchor = (if anchor \<noteq> [] then CHR ''#'' # normalize_anchor (tl anchor) else anchor)
      in ''href="'' @ path @ ''.html'' @ anchor @ ''"'')\<close>

function rewrite_md_links :: "string \<Rightarrow> string" where
  \<comment> \<open>\<open>re.sub\<close>: matches are replaced left to right and do not overlap\<close>
  \<open>rewrite_md_links [] = []\<close>
| \<open>rewrite_md_links (c # cs) =
     (case match_md_href (c # cs) of
        Some (path, group2, rest) \<Rightarrow> fix_md_href path group2 @ rewrite_md_links rest
      | None \<Rightarrow> c # rewrite_md_links cs)\<close>
  by pat_completeness auto

lemma md_tail_shorter: "md_tail s = Some (a, rest) \<Longrightarrow> length rest < length s"
proof -
  assume m: "md_tail s = Some (a, rest)"
  have d: "length t \<le> length r" if "dropWhile P r = x # t" for P r x and t :: string
    using length_dropWhile_le [of P r] that by simp
  obtain c r where dr: "drop 3 s = c # r" and le: "length rest \<le> length r"
    using m unfolding md_tail_def
    by (auto split: if_splits list.splits dest: d)
  have "length (drop 3 s) = Suc (length r)" using dr by simp
  then show ?thesis using le by simp
qed

lemma md_path_shorter: "md_path acc s = Some (p, a, rest) \<Longrightarrow> length rest < length s"
proof (induction s arbitrary: acc)
  case Nil
  then show ?case by simp
next
  case (Cons c cs)
  show ?case
  proof (cases "md_tail (c # cs)")
    case None
    then have "md_path (acc @ [c]) cs = Some (p, a, rest)"
      using Cons.prems by (simp split: if_splits)
    then show ?thesis using Cons.IH by fastforce
  next
    case (Some x)
    then show ?thesis using Cons.prems md_tail_shorter [of "c # cs"]
      by (cases x) auto
  qed
qed

lemma match_md_href_shorter:
  "match_md_href s = Some (p, a, rest) \<Longrightarrow> length rest < length s"
proof -
  assume m: "match_md_href s = Some (p, a, rest)"
  then obtain c cs where d: "drop 6 s = c # cs" and "md_path [c] cs = Some (p, a, rest)"
    unfolding match_md_href_def by (auto split: if_splits list.splits)
  then have "length rest < length cs" using md_path_shorter by blast
  moreover have "length (drop 6 s) = Suc (length cs)" using d by simp
  ultimately show ?thesis by simp
qed

termination rewrite_md_links
  by (relation "measure length") (auto dest: match_md_href_shorter)

declare rewrite_md_links.simps(2) [simp del]

text \<open>
  A text in which every \<^verbatim>\<open>href="\<close> has its closing quote: no href value is left
  unterminated at its end. In front of an attribute this says that the attribute does
  not stand inside an earlier href value.
\<close>

fun hrefs_closed :: "string \<Rightarrow> bool" where
  \<open>hrefs_closed [] = True\<close>
| \<open>hrefs_closed (c # cs) =
     ((startswith (c # cs) ''href="'' \<longrightarrow> CHR ''"'' \<in> set (drop 6 (c # cs))) \<and> hrefs_closed cs)\<close>

section \<open>Properties of the intra-document rewrite\<close>


lemma takeWhile_until: "c \<notin> set a \<Longrightarrow> takeWhile (\<lambda>x. x \<noteq> c) (a @ c # t) = a"
  by (induction a) auto

lemma dropWhile_until: "c \<notin> set a \<Longrightarrow> dropWhile (\<lambda>x. x \<noteq> c) (a @ c # t) = c # t"
  by (induction a) auto

lemma md_tail_quote [simp]:
  \<open>md_tail (CHR ''.'' # CHR ''m'' # CHR ''d'' # CHR ''"'' # post) = Some (None, post)\<close>
  by (simp add: md_tail_def)

lemma md_tail_hash [simp]:
  \<open>CHR ''"'' \<notin> set a \<Longrightarrow>
     md_tail (CHR ''.'' # CHR ''m'' # CHR ''d'' # CHR ''#'' # a @ CHR ''"'' # post) =
       Some (Some (CHR ''#'' # a), post)\<close>
  by (simp add: md_tail_def dropWhile_until takeWhile_until)

lemma md_tail_SomeD:
  \<open>md_tail s = Some x \<Longrightarrow> \<exists>c r. s = ''.md'' @ c # r \<and> (c = CHR ''"'' \<or> c = CHR ''#'')\<close>
proof -
  assume m: "md_tail s = Some x"
  then have st: "startswith s ''.md''" unfolding md_tail_def by (simp split: if_splits)
  then have s: "s = ''.md'' @ drop 3 s" by (metis append_take_drop_id startswith_def length_Cons list.size(3) numeral_3_eq_3)
  from m st obtain c r where d: "drop 3 s = c # r" and "c = CHR ''\"'' \<or> c = CHR ''#''"
    unfolding md_tail_def by (auto split: if_splits list.splits)
  then show ?thesis using s by metis
qed

lemma md_tail_None_behind:
  assumes \<open>u \<noteq> []\<close> \<open>CHR ''"'' \<notin> set u\<close> \<open>CHR ''#'' \<notin> set u\<close>
  shows \<open>md_tail (u @ ''.md'' @ t) = None\<close>
proof (rule ccontr)
  assume "md_tail (u @ ''.md'' @ t) \<noteq> None"
  then obtain x where "md_tail (u @ ''.md'' @ t) = Some x" by auto
  then obtain c r where e: "u @ ''.md'' @ t = ''.md'' @ c # r" and c: "c = CHR ''\"'' \<or> c = CHR ''#''"
    using md_tail_SomeD by blast
  show False
  proof (cases u)
    case Nil
    then show ?thesis using assms by simp
  next
    case u1: (Cons a1 u1)
    show ?thesis
    proof (cases u1)
      case Nil
      then show ?thesis using e u1 by simp
    next
      case u2: (Cons a2 u2)
      show ?thesis
      proof (cases u2)
        case Nil
        then show ?thesis using e u1 u2 by simp
      next
        case u3: (Cons a3 u3)
        show ?thesis
        proof (cases u3)
          case Nil
          then show ?thesis using e u1 u2 u3 c by auto
        next
          case (Cons a4 u4)
          then show ?thesis using e u1 u2 u3 c assms by auto
        qed
      qed
    qed
  qed
qed

lemma md_path_found:
  assumes \<open>CHR ''"'' \<notin> set u\<close> \<open>CHR ''#'' \<notin> set u\<close> \<open>md_tail (''.md'' @ t) = Some (g, rest)\<close>
  shows \<open>md_path acc (u @ ''.md'' @ t) = Some (acc @ u, g, rest)\<close>
  using assms(1,2)
proof (induction u arbitrary: acc)
  case Nil
  then show ?case using assms(3) by simp
next
  case (Cons c u)
  have "md_tail ((c # u) @ ''.md'' @ t) = None"
    using Cons.prems by (intro md_tail_None_behind) auto
  then show ?case using Cons by auto
qed


lemma match_md_href_SomeD: \<open>match_md_href s = Some x \<Longrightarrow> startswith s ''href="''\<close>
  unfolding match_md_href_def by (simp split: if_splits)

lemma startswith_href_no_quote:
  \<open>startswith (u @ t) ''href="'' \<Longrightarrow> CHR ''"'' \<notin> set u \<Longrightarrow> CHR ''"'' \<notin> set (take 5 t) \<Longrightarrow> u = []\<close>
proof -
  assume s: \<open>startswith (u @ t) ''href="''\<close> and u: \<open>CHR ''"'' \<notin> set u\<close>
    and t: \<open>CHR ''"'' \<notin> set (take 5 t)\<close>
  have l: "length ''href=\"'' = 6" by simp
  have "take 6 (u @ t) = ''href=\"''" using s unfolding startswith_def l .
  then have "CHR ''\"'' \<in> set (take 6 (u @ t))" by simp
  then have "CHR ''\"'' \<in> set (take 6 u) \<union> set (take (6 - length u) t)" by simp
  moreover have "CHR ''\"'' \<notin> set (take 6 u)" using u by (meson in_set_takeD)
  ultimately have i: "CHR ''\"'' \<in> set (take (6 - length u) t)" by blast
  show "u = []"
  proof (rule ccontr)
    assume "u \<noteq> []"
    then have "6 - length u \<le> 5" by (cases u) auto
    then have "set (take (6 - length u) t) \<subseteq> set (take 5 t)" by (rule set_take_subset_set_take)
    then show False using i t by blast
  qed
qed

lemma rewrite_md_links_skip:
  \<open>CHR ''"'' \<notin> set pre \<Longrightarrow> CHR ''"'' \<notin> set (take 5 s) \<Longrightarrow>
     rewrite_md_links (pre @ s) = pre @ rewrite_md_links s\<close>
proof (induction pre)
  case Nil
  then show ?case by simp
next
  case (Cons c pre)
  have "match_md_href ((c # pre) @ s) = None"
  proof (rule ccontr)
    assume "match_md_href ((c # pre) @ s) \<noteq> None"
    then have "startswith ((c # pre) @ s) ''href=\"''" using match_md_href_SomeD by blast
    then have "c # pre = []" using Cons.prems by (rule startswith_href_no_quote)
    then show False by simp
  qed
  then show ?case using Cons by (simp add: rewrite_md_links.simps(2))
qed

lemma rewrite_md_links_match:
  \<open>match_md_href s = Some (p, g, rest) \<Longrightarrow> rewrite_md_links s = fix_md_href p g @ rewrite_md_links rest\<close>
  by (cases s) (auto simp: rewrite_md_links.simps(2) match_md_href_def)

lemma rewrite_md_links_no_match:
  \<open>match_md_href (c # cs) = None \<Longrightarrow> rewrite_md_links (c # cs) = c # rewrite_md_links cs\<close>
  by (simp add: rewrite_md_links.simps(2))

lemma match_md_href_found:
  assumes \<open>p \<noteq> []\<close> \<open>CHR ''"'' \<notin> set p\<close> \<open>CHR ''#'' \<notin> set p\<close>
    \<open>md_tail (''.md'' @ t) = Some (g, rest)\<close>
  shows \<open>match_md_href (''href="'' @ p @ ''.md'' @ t) = Some (p, g, rest)\<close>
proof -
  obtain c u where p: "p = c # u" using assms(1) by (cases p) auto
  have "md_path [c] (u @ ''.md'' @ t) = Some ([c] @ u, g, rest)"
    using assms p by (intro md_path_found) auto
  then show ?thesis using assms(2) p by (auto simp: match_md_href_def)
qed


lemma md_path_None:
  assumes \<open>CHR ''"'' \<notin> set w\<close>
    \<open>\<forall>u f. w = u @ ''.md'' @ f \<longrightarrow> f \<noteq> [] \<and> hd f \<noteq> CHR ''#''\<close>
  shows \<open>md_path acc (w @ CHR ''"'' # post) = None\<close>
  using assms
proof (induction w arbitrary: acc)
  case Nil
  then show ?case by (simp add: md_tail_def)
next
  case (Cons c w)
  have t: "md_tail ((c # w) @ CHR ''\"'' # post) = None"
  proof (rule ccontr)
    assume "md_tail ((c # w) @ CHR ''\"'' # post) \<noteq> None"
    then obtain x where "md_tail ((c # w) @ CHR ''\"'' # post) = Some x" by auto
    then obtain d r where e: "(c # w) @ CHR ''\"'' # post = ''.md'' @ d # r"
      and d: "d = CHR ''\"'' \<or> d = CHR ''#''"
      using md_tail_SomeD by blast
    from e have "startswith ((c # w) @ CHR ''\"'' # post) ''.md''" by (simp add: startswith_def)
    then obtain f where f: "c # w = ''.md'' @ f"
      using Cons.prems(1) by (cases w; cases "tl w"; cases "tl (tl w)") auto
    then have "f \<noteq> [] \<and> hd f \<noteq> CHR ''#''" using Cons.prems(2) by (metis append_Nil)
    moreover have "f @ CHR ''\"'' # post = d # r" using e f by simp
    ultimately have "hd f = d" and "hd f \<in> set (c # w)" using f by (cases f; auto)+
    then show False using d Cons.prems(1) \<open>f \<noteq> [] \<and> hd f \<noteq> CHR ''#''\<close> by auto
  qed
  have "\<forall>u f. w = u @ ''.md'' @ f \<longrightarrow> f \<noteq> [] \<and> hd f \<noteq> CHR ''#''"
  proof (intro allI impI)
    fix u f assume "w = u @ ''.md'' @ f"
    then have "c # w = (c # u) @ ''.md'' @ f" by simp
    then show "f \<noteq> [] \<and> hd f \<noteq> CHR ''#''" using Cons.prems(2) by blast
  qed
  then have "md_path (acc @ [c]) (w @ CHR ''\"'' # post) = None"
    using Cons.IH Cons.prems(1) by simp
  then show ?case using t Cons.prems(1) by auto
qed

lemma match_md_href_None:
  assumes \<open>CHR ''"'' \<notin> set v\<close>
    \<open>\<forall>p f. v = p @ ''.md'' @ f \<longrightarrow> p = [] \<or> f \<noteq> [] \<and> hd f \<noteq> CHR ''#''\<close>
  shows \<open>match_md_href (''href="'' @ v @ CHR ''"'' # post) = None\<close>
proof (cases v)
  case Nil
  then show ?thesis by (simp add: match_md_href_def)
next
  case (Cons c w)
  have "\<forall>u f. w = u @ ''.md'' @ f \<longrightarrow> f \<noteq> [] \<and> hd f \<noteq> CHR ''#''"
  proof (intro allI impI)
    fix u f assume "w = u @ ''.md'' @ f"
    then have "v = (c # u) @ ''.md'' @ f" using Cons by simp
    then show "f \<noteq> [] \<and> hd f \<noteq> CHR ''#''" using assms(2) by blast
  qed
  then have "md_path [c] (w @ CHR ''\"'' # post) = None"
    using assms(1) Cons by (intro md_path_None) auto
  then show ?thesis using Cons assms(1) by (auto simp: match_md_href_def)
qed

lemma startswith_until:
  "startswith (u @ q # s) (k @ [q]) \<Longrightarrow> q \<notin> set u \<Longrightarrow> q \<notin> set k \<Longrightarrow> u = k"
proof (induction k arbitrary: u)
  case Nil
  then show ?case by (cases u) auto
next
  case (Cons a k)
  then show ?case by (cases u) auto
qed

lemma endswith_Cons: "endswith u k \<Longrightarrow> endswith (c # u) k"
  unfolding endswith_def startswith_iff by auto

lemma match_md_href_not_h: \<open>c \<noteq> CHR ''h'' \<Longrightarrow> match_md_href (c # cs) = None\<close>
  by (simp add: match_md_href_def)

lemma rewrite_md_links_attr_kept:
  \<open>CHR ''"'' \<notin> set u \<Longrightarrow> startswith (rewrite_md_links (u @ CHR ''"'' # s)) (u @ ''"'')\<close>
proof (induction u)
  case Nil
  then show ?case by (simp add: rewrite_md_links_no_match match_md_href_not_h)
next
  case (Cons c u)
  show ?case
  proof (cases "match_md_href ((c # u) @ CHR ''\"'' # s)")
    case None
    then show ?thesis using Cons by (simp add: rewrite_md_links_no_match)
  next
    case (Some x)
    obtain p g rest where x: "x = (p, g, rest)" by (cases x) auto
    have "startswith ((c # u) @ CHR ''\"'' # s) (''href='' @ [CHR ''\"''])"
      using match_md_href_SomeD [OF Some] by simp
    then have "c # u = ''href=''" using Cons.prems by (rule startswith_until) auto
    then show ?thesis
      unfolding rewrite_md_links_match [OF Some [unfolded x]]
      by (simp add: fix_md_href_def Let_def)
  qed
qed

lemma rewrite_md_links_attr_exact:
  \<open>CHR ''"'' \<notin> set u \<Longrightarrow> \<not> endswith u ''href='' \<Longrightarrow>
     rewrite_md_links (u @ CHR ''"'' # s) = u @ CHR ''"'' # rewrite_md_links s\<close>
proof (induction u)
  case Nil
  then show ?case by (simp add: rewrite_md_links_no_match match_md_href_not_h)
next
  case (Cons c u)
  have "match_md_href ((c # u) @ CHR ''\"'' # s) = None"
  proof (rule ccontr)
    assume "match_md_href ((c # u) @ CHR ''\"'' # s) \<noteq> None"
    then have "startswith ((c # u) @ CHR ''\"'' # s) (''href='' @ [CHR ''\"''])"
      using match_md_href_SomeD by fastforce
    then have "c # u = ''href=''" using Cons.prems(1) by (rule startswith_until) auto
    then show False using Cons.prems(2) by (simp add: endswith_def)
  qed
  moreover have "\<not> endswith u ''href=''" using Cons.prems(2) endswith_Cons by blast
  ultimately show ?case using Cons by (simp add: rewrite_md_links_no_match)
qed

lemma rewrite_md_links_href_key:
  \<open>match_md_href (''href="'' @ s) = None \<Longrightarrow>
     rewrite_md_links (''href="'' @ s) = ''href="'' @ rewrite_md_links s\<close>
  by (simp add: rewrite_md_links_no_match match_md_href_not_h)

lemma md_tail_local:
  assumes \<open>CHR ''"'' \<notin> set w\<close>
  shows \<open>md_tail (w @ CHR ''"'' # t) = map_option (\<lambda>(g, r). (g, t)) (md_tail (w @ ''"''))\<close>
proof (cases w)
  case Nil
  then show ?thesis by (simp add: md_tail_def)
next
  case w1: (Cons a1 w1)
  show ?thesis
  proof (cases w1)
    case Nil
    then show ?thesis using w1 by (simp add: md_tail_def)
  next
    case w2: (Cons a2 w2)
    show ?thesis
    proof (cases w2)
      case Nil
      then show ?thesis using w1 w2 by (simp add: md_tail_def)
    next
      case w3: (Cons a3 w3)
      show ?thesis
      proof (cases w3)
        case Nil
        then show ?thesis using w1 w2 w3 by (simp add: md_tail_def)
      next
        case (Cons a4 w4)
        have \<open>CHR ''"'' \<notin> set w4\<close> \<open>a4 \<noteq> CHR ''"''\<close> using assms w1 w2 w3 Cons by auto
        then show ?thesis
          using w1 w2 w3 Cons
          by (simp add: md_tail_def dropWhile_until takeWhile_until)
      qed
    qed
  qed
qed

lemma md_path_local:
  \<open>CHR ''"'' \<notin> set w \<Longrightarrow>
     md_path acc (w @ CHR ''"'' # t) = map_option (\<lambda>(p, g, r). (p, g, t)) (md_path acc (w @ ''"''))\<close>
proof (induction w arbitrary: acc)
  case Nil
  then show ?case by (simp add: md_tail_def)
next
  case (Cons c w)
  then have c: \<open>c \<noteq> CHR ''"''\<close> and w: \<open>CHR ''"'' \<notin> set w\<close> by auto
  have t: \<open>md_tail ((c # w) @ CHR ''"'' # t) =
      map_option (\<lambda>(g, r). (g, t)) (md_tail ((c # w) @ ''"''))\<close>
    using Cons.prems by (rule md_tail_local)
  show ?case
  proof (cases \<open>md_tail ((c # w) @ ''"'')\<close>)
    case None
    then show ?thesis using t c Cons.IH [OF w] by simp
  next
    case (Some x)
    then show ?thesis using t by (cases x) simp
  qed
qed

lemma match_md_href_local:
  assumes \<open>CHR ''"'' \<notin> set v\<close>
  shows \<open>match_md_href (''href="'' @ v @ CHR ''"'' # t) =
     map_option (\<lambda>(p, g, r). (p, g, t)) (match_md_href (''href="'' @ v @ ''"''))\<close>
proof (cases v)
  case Nil
  then show ?thesis by (simp add: match_md_href_def)
next
  case (Cons c w)
  then have \<open>c \<noteq> CHR ''"''\<close> \<open>CHR ''"'' \<notin> set w\<close> using assms by auto
  then show ?thesis
    using Cons md_path_local [of w "[c]" t] by (simp add: match_md_href_def)
qed

lemma href_value_split:
  assumes \<open>startswith u ''href="''\<close> \<open>CHR ''"'' \<in> set (drop 6 u)\<close>
  obtains v z where \<open>u = ''href="'' @ v @ CHR ''"'' # z\<close> \<open>CHR ''"'' \<notin> set v\<close>
proof -
  let ?v = \<open>takeWhile (\<lambda>x. x \<noteq> CHR ''"'') (drop 6 u)\<close>
  let ?z = \<open>tl (dropWhile (\<lambda>x. x \<noteq> CHR ''"'') (drop 6 u))\<close>
  have n: \<open>dropWhile (\<lambda>x. x \<noteq> CHR ''"'') (drop 6 u) \<noteq> []\<close> using assms(2) by simp
  have \<open>hd (dropWhile (\<lambda>x. x \<noteq> CHR ''"'') (drop 6 u)) = CHR ''"''\<close>
    using hd_dropWhile [OF n] by simp
  then have d: \<open>dropWhile (\<lambda>x. x \<noteq> CHR ''"'') (drop 6 u) = CHR ''"'' # ?z\<close>
    using n by (metis list.collapse)
  have 1: \<open>drop 6 u = ?v @ CHR ''"'' # ?z\<close>
    using d takeWhile_dropWhile_id [of "\<lambda>x. x \<noteq> CHR 0x22" "drop 6 u"] by simp
  have l: \<open>length ''href="'' = 6\<close> by simp
  have \<open>take 6 u = ''href="''\<close> using assms(1) unfolding startswith_def l .
  then have \<open>u = ''href="'' @ drop 6 u\<close> using append_take_drop_id [of 6 u] by simp
  then have \<open>u = ''href="'' @ ?v @ CHR ''"'' # ?z\<close> using 1 by simp
  moreover have \<open>CHR ''"'' \<notin> set ?v\<close> using set_takeWhileD by fastforce
  ultimately show ?thesis using that by blast
qed

lemma match_md_href_append:
  assumes \<open>startswith u ''href="''\<close> \<open>CHR ''"'' \<in> set (drop 6 u)\<close>
  shows \<open>match_md_href (u @ t) = map_option (\<lambda>(p, g, r). (p, g, r @ t)) (match_md_href u)\<close>
    and \<open>match_md_href u = Some (p, g, r) \<Longrightarrow> \<exists>x. u = x @ r \<and> x \<noteq> []\<close>
proof -
  obtain v z where u: \<open>u = ''href="'' @ v @ CHR ''"'' # z\<close> and v: \<open>CHR ''"'' \<notin> set v\<close>
    using assms by (rule href_value_split)
  have 1: \<open>match_md_href (u @ t) =
      map_option (\<lambda>(p, g, r). (p, g, z @ t)) (match_md_href (''href="'' @ v @ ''"''))\<close>
    unfolding u using match_md_href_local [OF v, of "z @ t"] by simp
  have 2: \<open>match_md_href u =
      map_option (\<lambda>(p, g, r). (p, g, z)) (match_md_href (''href="'' @ v @ ''"''))\<close>
    unfolding u using match_md_href_local [OF v, of z] by simp
  show \<open>match_md_href (u @ t) = map_option (\<lambda>(p, g, r). (p, g, r @ t)) (match_md_href u)\<close>
    unfolding 1 2 by (cases \<open>match_md_href (''href="'' @ v @ ''"'')\<close>) auto
  show \<open>\<exists>x. u = x @ r \<and> x \<noteq> []\<close> if \<open>match_md_href u = Some (p, g, r)\<close>
  proof -
    have \<open>r = z\<close> using that unfolding 2 by auto
    then have \<open>u = (''href="'' @ v @ ''"'') @ r\<close> using u by simp
    then show ?thesis by blast
  qed
qed

lemma hrefs_closed_suffix: \<open>hrefs_closed (x @ y) \<Longrightarrow> hrefs_closed y\<close>
  by (induction x) auto

lemma startswith_href_straddle:
  assumes \<open>startswith (pre @ CHR ''h'' # s) ''href="''\<close> \<open>pre \<noteq> []\<close>
  shows \<open>startswith pre ''href="''\<close>
proof -
  obtain a1 p1 where 1: \<open>pre = a1 # p1\<close> using assms(2) by (cases pre) auto
  show ?thesis
  proof (cases p1)
    case Nil
    then show ?thesis using assms(1) 1 by simp
  next
    case 2: (Cons a2 p2)
    show ?thesis
    proof (cases p2)
      case Nil
      then show ?thesis using assms(1) 1 2 by simp
    next
      case 3: (Cons a3 p3)
      show ?thesis
      proof (cases p3)
        case Nil
        then show ?thesis using assms(1) 1 2 3 by simp
      next
        case 4: (Cons a4 p4)
        show ?thesis
        proof (cases p4)
          case Nil
          then show ?thesis using assms(1) 1 2 3 4 by simp
        next
          case 5: (Cons a5 p5)
          show ?thesis
          proof (cases p5)
            case Nil
            then show ?thesis using assms(1) 1 2 3 4 5 by simp
          next
            case (Cons a6 p6)
            then show ?thesis using assms(1) 1 2 3 4 5 by simp
          qed
        qed
      qed
    qed
  qed
qed

lemma rewrite_md_links_append:
  assumes \<open>hrefs_closed pre\<close> \<open>startswith s ''href="''\<close>
  shows \<open>rewrite_md_links (pre @ s) = rewrite_md_links pre @ rewrite_md_links s\<close>
  using assms(1)
proof (induction "length pre" arbitrary: pre rule: less_induct)
  case less
  show ?case
  proof (cases pre)
    case Nil
    then show ?thesis by simp
  next
    case (Cons c cs)
    obtain s' where s: \<open>s = CHR ''h'' # s'\<close> using assms(2) by (cases s) auto
    have cs: \<open>hrefs_closed cs\<close> using less.prems Cons by simp
    have ih: \<open>rewrite_md_links (cs @ s) = rewrite_md_links cs @ rewrite_md_links s\<close>
      using less.hyps [of cs] cs Cons by simp
    show ?thesis
    proof (cases \<open>startswith pre ''href="''\<close>)
      case True
      then have q: \<open>CHR ''"'' \<in> set (drop 6 pre)\<close> using less.prems Cons by simp
      have m: \<open>match_md_href (pre @ s) =
          map_option (\<lambda>(p, g, r). (p, g, r @ s)) (match_md_href pre)\<close>
        using True q by (rule match_md_href_append(1))
      show ?thesis
      proof (cases \<open>match_md_href pre\<close>)
        case None
        then have \<open>match_md_href (pre @ s) = None\<close> using m by simp
        then show ?thesis
          using None ih Cons by (simp add: rewrite_md_links_no_match)
      next
        case (Some x)
        obtain p g r where x: \<open>x = (p, g, r)\<close> by (cases x) auto
        have mp: \<open>match_md_href pre = Some (p, g, r)\<close> using Some x by simp
        then have ms: \<open>match_md_href (pre @ s) = Some (p, g, r @ s)\<close> using m by simp
        obtain y where y: \<open>pre = y @ r\<close> \<open>y \<noteq> []\<close>
          using match_md_href_append(2) [OF True q mp] by blast
        then have \<open>length r < length pre\<close> by (cases y) auto
        moreover have \<open>hrefs_closed r\<close> using less.prems y(1) hrefs_closed_suffix by blast
        ultimately have \<open>rewrite_md_links (r @ s) = rewrite_md_links r @ rewrite_md_links s\<close>
          using less.hyps by blast
        then show ?thesis
          unfolding rewrite_md_links_match [OF mp] rewrite_md_links_match [OF ms] by simp
      qed
    next
      case False
      have \<open>\<not> startswith (pre @ s) ''href="''\<close>
        using False startswith_href_straddle [of pre s'] Cons s by auto
      then have \<open>match_md_href (pre @ s) = None\<close> by (simp add: match_md_href_def)
      moreover have \<open>match_md_href pre = None\<close> using False by (simp add: match_md_href_def)
      ultimately show ?thesis
        using ih Cons by (simp add: rewrite_md_links_no_match)
    qed
  qed
qed

text \<open>
  C3 (as amended). Take an attribute \<^verbatim>\<open>href="V"\<close> in a text in front of which every
  earlier \<^verbatim>\<open>href="\<close> has its closing quote (\<open>hrefs_closed pre\<close>). The text in front
  of it is rewritten on its own. If \<open>V\<close> is \<open>p.md\<close> or \<open>p.md#a\<close>, with \<open>p\<close> not
  empty and free of \<open>#\<close> and of quotes, the attribute becomes \<open>p.html\<close> or \<open>p.html#\<close>
  with the normalized \<open>a\<close>, and the text behind it is rewritten on its own. If \<open>V\<close>
  has no non-empty prefix followed by \<open>.md\<close> and then its end or a \<open>#\<close>, the
  attribute stays as it is; the text behind it is rewritten on its own unless \<open>V\<close>
  ends in \<open>href=\<close>.
\<close>

theorem rewrite_md_links_href:
  assumes \<open>hrefs_closed pre\<close>
  shows \<open>(p \<noteq> [] \<and> CHR ''"'' \<notin> set p \<and> CHR ''#'' \<notin> set p \<longrightarrow>
            rewrite_md_links (pre @ ''href="'' @ p @ ''.md"'' @ post) =
              rewrite_md_links pre @ ''href="'' @ p @ ''.html"'' @ rewrite_md_links post \<and>
            (CHR ''"'' \<notin> set a \<longrightarrow>
              rewrite_md_links (pre @ ''href="'' @ p @ ''.md#'' @ a @ ''"'' @ post) =
                rewrite_md_links pre @ ''href="'' @ p @ ''.html#'' @ normalize_anchor a @ ''"'' @
                  rewrite_md_links post)) \<and>
         (CHR ''"'' \<notin> set v \<and>
            (\<forall>p f. v = p @ ''.md'' @ f \<longrightarrow> p = [] \<or> f \<noteq> [] \<and> hd f \<noteq> CHR ''#'') \<longrightarrow>
            startswith (rewrite_md_links (pre @ ''href="'' @ v @ ''"'' @ post))
              (rewrite_md_links pre @ ''href="'' @ v @ ''"'') \<and>
            (\<not> endswith v ''href='' \<longrightarrow>
              rewrite_md_links (pre @ ''href="'' @ v @ ''"'' @ post) =
                rewrite_md_links pre @ ''href="'' @ v @ ''"'' @ rewrite_md_links post))\<close>
proof (intro conjI impI)
  have k: \<open>startswith (''href="'' @ t) ''href="''\<close> for t by simp
  assume p: \<open>p \<noteq> [] \<and> CHR ''"'' \<notin> set p \<and> CHR ''#'' \<notin> set p\<close>
  have m1: \<open>match_md_href (''href="'' @ p @ ''.md'' @ ''"'' @ post) = Some (p, None, post)\<close>
    using p by (intro match_md_href_found) auto
  have \<open>rewrite_md_links (pre @ ''href="'' @ p @ ''.md'' @ ''"'' @ post) =
      rewrite_md_links pre @ fix_md_href p None @ rewrite_md_links post\<close>
    unfolding rewrite_md_links_append [OF assms k] rewrite_md_links_match [OF m1] ..
  then show \<open>rewrite_md_links (pre @ ''href="'' @ p @ ''.md"'' @ post) =
      rewrite_md_links pre @ ''href="'' @ p @ ''.html"'' @ rewrite_md_links post\<close>
    by (simp add: fix_md_href_def)
  assume a: \<open>CHR ''"'' \<notin> set a\<close>
  have m2: \<open>match_md_href (''href="'' @ p @ ''.md'' @ ''#'' @ a @ CHR ''"'' # post) =
      Some (p, Some (CHR ''#'' # a), post)\<close>
    using p a by (intro match_md_href_found) auto
  have \<open>rewrite_md_links (pre @ ''href="'' @ p @ ''.md'' @ ''#'' @ a @ CHR ''"'' # post) =
      rewrite_md_links pre @ fix_md_href p (Some (CHR ''#'' # a)) @ rewrite_md_links post\<close>
    unfolding rewrite_md_links_append [OF assms k] rewrite_md_links_match [OF m2] ..
  then show \<open>rewrite_md_links (pre @ ''href="'' @ p @ ''.md#'' @ a @ ''"'' @ post) =
      rewrite_md_links pre @ ''href="'' @ p @ ''.html#'' @ normalize_anchor a @ ''"'' @
        rewrite_md_links post\<close>
    by (simp add: fix_md_href_def)
next
  have k: \<open>startswith (''href="'' @ t) ''href="''\<close> for t by simp
  assume v: \<open>CHR ''"'' \<notin> set v \<and>
    (\<forall>p f. v = p @ ''.md'' @ f \<longrightarrow> p = [] \<or> f \<noteq> [] \<and> hd f \<noteq> CHR ''#'')\<close>
  have n: \<open>match_md_href (''href="'' @ v @ CHR ''"'' # post) = None\<close>
    using v by (intro match_md_href_None) auto
  have r: \<open>rewrite_md_links (pre @ ''href="'' @ v @ CHR ''"'' # post) =
      rewrite_md_links pre @ ''href="'' @ rewrite_md_links (v @ CHR ''"'' # post)\<close>
    unfolding rewrite_md_links_append [OF assms k] rewrite_md_links_href_key [OF n] ..
  have \<open>startswith (rewrite_md_links (v @ CHR ''"'' # post)) (v @ ''"'')\<close>
    using v by (intro rewrite_md_links_attr_kept) auto
  then obtain t where \<open>rewrite_md_links (v @ CHR ''"'' # post) = (v @ ''"'') @ t\<close>
    unfolding startswith_iff by blast
  then have \<open>rewrite_md_links (pre @ ''href="'' @ v @ CHR ''"'' # post) =
      (rewrite_md_links pre @ ''href="'' @ v @ ''"'') @ t\<close>
    using r by simp
  then show \<open>startswith (rewrite_md_links (pre @ ''href="'' @ v @ ''"'' @ post))
      (rewrite_md_links pre @ ''href="'' @ v @ ''"'')\<close>
    unfolding startswith_iff by auto
  assume \<open>\<not> endswith v ''href=''\<close>
  then have \<open>rewrite_md_links (v @ CHR ''"'' # post) = v @ CHR ''"'' # rewrite_md_links post\<close>
    using v by (intro rewrite_md_links_attr_exact) auto
  then show \<open>rewrite_md_links (pre @ ''href="'' @ v @ ''"'' @ post) =
      rewrite_md_links pre @ ''href="'' @ v @ ''"'' @ rewrite_md_links post\<close>
    using r by simp
qed

theorem rewrite_md_links_href_witness:
  \<open>rewrite_md_links ''<h2 id="top">T</h2><p><a href="x.md">t</a>'' =
     ''<h2 id="top">T</h2><p><a href="x.html">t</a>'' \<and>
   rewrite_md_links ''<h2 id="top">T</h2><p><a href="x.md#Section--One">t</a>'' =
     ''<h2 id="top">T</h2><p><a href="x.html#Section-One">t</a>'' \<and>
   rewrite_md_links ''<h2 id="top">T</h2><p><a href="x.txt#s--t">t</a>'' =
     ''<h2 id="top">T</h2><p><a href="x.txt#s--t">t</a>''\<close>
proof -
  let ?pre = \<open>''<h2 id="top">T</h2><p><a ''\<close>
  have pre: \<open>hrefs_closed ?pre\<close> by simp
  have rp: \<open>rewrite_md_links ?pre = ?pre\<close> by code_simp
  have p: \<open>''x'' \<noteq> [] \<and> CHR ''"'' \<notin> set ''x'' \<and> CHR ''#'' \<notin> set ''x''\<close> by simp
  have a: \<open>CHR ''"'' \<notin> set ''Section--One''\<close> by simp
  have \<open>''x.txt#s--t'' \<noteq> p @ ''.md'' @ f\<close> for p f
  proof
    assume \<open>''x.txt#s--t'' = p @ ''.md'' @ f\<close>
    then have \<open>set ''x.txt#s--t'' = set (p @ ''.md'' @ f)\<close> by (rule arg_cong)
    moreover have \<open>CHR ''m'' \<in> set (p @ ''.md'' @ f)\<close> by simp
    ultimately have \<open>CHR ''m'' \<in> set ''x.txt#s--t''\<close> by (simp only:)
    then show False by simp
  qed
  then have v: \<open>CHR ''"'' \<notin> set ''x.txt#s--t'' \<and>
      (\<forall>p f. ''x.txt#s--t'' = p @ ''.md'' @ f \<longrightarrow> p = [] \<or> f \<noteq> [] \<and> hd f \<noteq> CHR ''#'')\<close>
    by simp
  have e: \<open>\<not> endswith ''x.txt#s--t'' ''href=''\<close> by (simp add: endswith_def)
  have post: \<open>rewrite_md_links ''>t</a>'' = ''>t</a>''\<close> by code_simp
  have n: \<open>normalize_anchor ''Section--One'' = ''Section-One''\<close>
    by (simp add: normalize_anchor_def strip_chars_def)
  show ?thesis
    using rewrite_md_links_href [OF pre, of "''x''" "''>t</a>''" "''Section--One''" "''x.txt#s--t''"]
      p a v e
    unfolding rp by (simp add: post n)
qed

theorem rewrite_md_links_counterexample:
  \<open>rewrite_md_links ''<a href=".md">t</a>'' = ''<a href=".md">t</a>'' \<and>
   rewrite_md_links ''<a href="a#b.md">t</a>'' = ''<a href="a#b.html">t</a>''\<close>
  by code_simp

section \<open>Cross-document link rewriting (md\_to\_html.py, rewrite\_cross\_page\_links)\<close>

definition is_space :: "char \<Rightarrow> bool" where
  \<comment> \<open>\<^verbatim>\<open>\s\<close> of a \<open>str\<close> pattern: the white space of Unicode, here below 256\<close>
  "is_space c = (c \<in> set [CHR 0x09, CHR 0x0A, CHR 0x0B, CHR 0x0C, CHR 0x0D,
      CHR 0x1C, CHR 0x1D, CHR 0x1E, CHR 0x1F, CHR 0x20, CHR 0x85, CHR 0xA0])"

fun split_first :: "string \<Rightarrow> string \<Rightarrow> (string \<times> string) option" where
  \<comment> \<open>the text in front of and behind the first occurrence of \<open>sub\<close>: what a lazy
      \<^verbatim>\<open>(.*?)\<close> with \<open>DOTALL\<close> in front of a literal finds\<close>
  "split_first sub [] = (if sub = [] then Some ([], []) else None)"
| "split_first sub (c # cs) =
     (if startswith (c # cs) sub then Some ([], drop (length sub) (c # cs))
      else map_option (\<lambda>(a, b). (c # a, b)) (split_first sub cs))"

text \<open>
  The pattern is \<^verbatim>\<open><a\s+href="([^"]*)"[^>]*>(.*?)</a>\<close> with \<open>DOTALL\<close>. Each greedy
  part is followed by a character it cannot take (\<open>h\<close> is no white space, then the
  quote, then \<^verbatim>\<open>>\<close>), so it takes its whole run and giving a character back never
  helps; the lazy group 2 ends at the first \<^verbatim>\<open></a>\<close>.
\<close>

definition match_anchor :: "string \<Rightarrow> (string \<times> string \<times> string \<times> string) option" where
  \<comment> \<open>the pattern at the start of \<open>s\<close>: group 0 (the match), group 1, group 2 and the
      text behind the match\<close>
  \<open>match_anchor s =
     (if startswith s ''<a'' then
        (let r1 = drop 2 s; r2 = dropWhile is_space r1 in
         if takeWhile is_space r1 = [] then None
         else if startswith r2 ''href="'' then
           (let r3 = drop 6 r2 in
            case dropWhile (\<lambda>x. x \<noteq> CHR ''"'') r3 of
              [] \<Rightarrow> None
            | _ # r4 \<Rightarrow>
                (case dropWhile (\<lambda>x. x \<noteq> CHR ''>'') r4 of
                   [] \<Rightarrow> None
                 | _ # r5 \<Rightarrow>
                     (case split_first ''</a>'' r5 of
                        None \<Rightarrow> None
                      | Some (inner, rest) \<Rightarrow>
                          Some (take (length s - length rest) s,
                                takeWhile (\<lambda>x. x \<noteq> CHR ''"'') r3, inner, rest))))
         else None)
      else None)\<close>

definition replace_anchor :: "(string \<rightharpoonup> string) \<Rightarrow> string \<Rightarrow> string \<Rightarrow> string \<Rightarrow> string" where
  \<comment> \<open>the replacement function \<open>_replace\<close>; \<open>href.split("#")[0]\<close> is the text in front
      of the first \<open>#\<close>\<close>
  \<open>replace_anchor page_url_map group0 href inner =
     (if startswith href ''#'' \<or> startswith href ''http'' then group0
      else
        (let filename = takeWhile (\<lambda>x. x \<noteq> CHR ''#'') href in
         case page_url_map filename of
           Some url \<Rightarrow> ''<a href="'' @ url @ ''">'' @ inner @ ''</a>''
         | None \<Rightarrow> ''<strong>'' @ inner @ ''</strong>''))\<close>

function rewrite_cross_page_links :: "string \<Rightarrow> (string \<rightharpoonup> string) \<Rightarrow> string" where
  \<open>rewrite_cross_page_links [] page_url_map = []\<close>
| \<open>rewrite_cross_page_links (c # cs) page_url_map =
     (case match_anchor (c # cs) of
        Some (group0, href, inner, rest) \<Rightarrow>
          replace_anchor page_url_map group0 href inner @ rewrite_cross_page_links rest page_url_map
      | None \<Rightarrow> c # rewrite_cross_page_links cs page_url_map)\<close>
  by pat_completeness auto

lemma split_first_shorter:
  "split_first sub s = Some (a, b) \<Longrightarrow> length b \<le> length s"
proof (induction s arbitrary: a)
  case Nil
  then show ?case by (simp split: if_splits)
next
  case (Cons c cs)
  then show ?case by (fastforce split: if_splits)
qed

lemma dropWhile_Cons_shorter: "dropWhile P r = x # t \<Longrightarrow> length t < length r"
  using length_dropWhile_le [of P r] by simp

lemma match_anchor_shorter:
  assumes \<open>match_anchor s = Some (g, h, i, rest)\<close>
  shows \<open>length rest < length s\<close>
proof -
  from assms obtain r3 x r4 y r5 where
    r3: \<open>r3 = drop 6 (dropWhile is_space (drop 2 s))\<close> and
    r4: \<open>dropWhile (\<lambda>x. x \<noteq> CHR ''"'') r3 = x # r4\<close> and
    r5: \<open>dropWhile (\<lambda>x. x \<noteq> CHR ''>'') r4 = y # r5\<close> and
    sp: \<open>split_first ''</a>'' r5 = Some (i, rest)\<close>
    unfolding match_anchor_def Let_def
    by (auto split: if_splits list.splits option.splits)
  have \<open>length rest \<le> length r5\<close> using sp by (rule split_first_shorter)
  also have \<open>\<dots> < length r4\<close> using r5 by (rule dropWhile_Cons_shorter)
  also have \<open>\<dots> < length r3\<close> using r4 by (rule dropWhile_Cons_shorter)
  also have \<open>\<dots> \<le> length s\<close>
    unfolding r3 using length_dropWhile_le [of is_space "drop 2 s"] by simp
  finally show ?thesis .
qed

termination rewrite_cross_page_links
  by (relation "measure (\<lambda>(s, m). length s)") (auto dest: match_anchor_shorter)

declare rewrite_cross_page_links.simps(2) [simp del]

definition anchor_tag :: "string \<Rightarrow> string \<Rightarrow> string \<Rightarrow> string \<Rightarrow> string" where
  \<comment> \<open>an anchor tag of the shape the pattern looks for: white space \<open>ws\<close>, the href
      value \<open>h\<close> as the first attribute, further attributes \<open>attrs\<close>, the text \<open>inner\<close>\<close>
  \<open>anchor_tag ws h attrs inner =
     ''<a'' @ ws @ ''href="'' @ h @ ''"'' @ attrs @ ''>'' @ inner @ ''</a>''\<close>

text \<open>
  A text in which no anchor is left open: wherever the start of the pattern,
  \<^verbatim>\<open><a\s+href="\<close>, stands in it, the whole pattern matches inside the text. In front
  of an anchor tag this says that the tag does not stand inside an earlier anchor that
  the pattern would take together with it.
\<close>

definition anchor_opening :: "string \<Rightarrow> bool" where
  \<comment> \<open>\<^verbatim>\<open><a\s+href="\<close> at the start of \<open>s\<close>\<close>
  \<open>anchor_opening s =
     (startswith s ''<a'' \<and> takeWhile is_space (drop 2 s) \<noteq> [] \<and>
      startswith (dropWhile is_space (drop 2 s)) ''href="'')\<close>

fun anchors_closed :: "string \<Rightarrow> bool" where
  \<open>anchors_closed [] = True\<close>
| \<open>anchors_closed (c # cs) =
     ((anchor_opening (c # cs) \<longrightarrow> match_anchor (c # cs) \<noteq> None) \<and> anchors_closed cs)\<close>

section \<open>Properties of the cross-document rewrite\<close>


lemma split_first_found:
  assumes \<open>\<not> str_contains inner ''</a>''\<close>
  shows \<open>split_first ''</a>'' (inner @ ''</a>'' @ post) = Some (inner, post)\<close>
  using assms
proof (induction inner)
  case Nil
  then show ?case by simp
next
  case (Cons c inner)
  then have n: \<open>\<not> startswith (c # inner) ''</a>''\<close> and r: \<open>\<not> str_contains inner ''</a>''\<close>
    by auto
  have \<open>\<not> startswith ((c # inner) @ ''</a>'' @ post) ''</a>''\<close>
    using n by (cases inner; cases "tl inner"; cases "tl (tl inner)") auto
  then show ?case using Cons.IH [OF r] by simp
qed

lemma space_run:
  assumes \<open>ws \<noteq> []\<close> \<open>\<forall>c\<in>set ws. is_space c\<close> \<open>\<not> is_space x\<close>
  shows \<open>takeWhile is_space (ws @ x # t) = ws\<close> \<open>dropWhile is_space (ws @ x # t) = x # t\<close>
  using assms by (simp_all add: takeWhile_append2 dropWhile_append2)

lemma match_anchor_tag:
  assumes \<open>ws \<noteq> []\<close> \<open>\<forall>c\<in>set ws. is_space c\<close> \<open>CHR ''"'' \<notin> set h\<close>
    \<open>CHR ''>'' \<notin> set attrs\<close> \<open>\<not> str_contains inner ''</a>''\<close>
  shows \<open>match_anchor (''<a'' @ ws @ ''href="'' @ h @ ''"'' @ attrs @ ''>'' @ inner @ ''</a>'' @ post) =
    Some (''<a'' @ ws @ ''href="'' @ h @ ''"'' @ attrs @ ''>'' @ inner @ ''</a>'', h, inner, post)\<close>
proof -
  let ?r2 = \<open>''href="'' @ h @ ''"'' @ attrs @ ''>'' @ inner @ ''</a>'' @ post\<close>
  let ?s = \<open>''<a'' @ ws @ ?r2\<close>
  have nh: \<open>\<not> is_space CHR ''h''\<close> by (simp add: is_space_def)
  have t: \<open>takeWhile is_space (ws @ ?r2) = ws\<close> and d: \<open>dropWhile is_space (ws @ ?r2) = ?r2\<close>
    using space_run [OF assms(1,2) nh] by simp_all
  have q1: \<open>dropWhile (\<lambda>x. x \<noteq> CHR ''"'') (h @ CHR ''"'' # attrs @ ''>'' @ inner @ ''</a>'' @ post) =
      CHR ''"'' # attrs @ ''>'' @ inner @ ''</a>'' @ post\<close>
    using assms(3) by (rule dropWhile_until)
  have q2: \<open>takeWhile (\<lambda>x. x \<noteq> CHR ''"'') (h @ CHR ''"'' # attrs @ ''>'' @ inner @ ''</a>'' @ post) = h\<close>
    using assms(3) by (rule takeWhile_until)
  have q3: \<open>dropWhile (\<lambda>x. x \<noteq> CHR ''>'') (attrs @ CHR ''>'' # inner @ ''</a>'' @ post) =
      CHR ''>'' # inner @ ''</a>'' @ post\<close>
    using assms(4) by (rule dropWhile_until)
  have q4: \<open>split_first ''</a>'' (inner @ ''</a>'' @ post) = Some (inner, post)\<close>
    using assms(5) by (rule split_first_found)
  have g0: \<open>take (length (tg @ post) - length post) (tg @ post) = tg\<close> for tg :: string
    by simp
  have e: \<open>?s = (''<a'' @ ws @ ''href="'' @ h @ ''"'' @ attrs @ ''>'' @ inner @ ''</a>'') @ post\<close>
    by simp
  have g: \<open>take (length ?s - length post) ?s =
      ''<a'' @ ws @ ''href="'' @ h @ ''"'' @ attrs @ ''>'' @ inner @ ''</a>''\<close>
    unfolding e by (rule g0)
  have \<open>match_anchor ?s = Some (take (length ?s - length post) ?s, h, inner, post)\<close>
    unfolding match_anchor_def using t d q1 q2 q3 q4 assms(1) by (simp add: Let_def)
  then show ?thesis unfolding g .
qed

lemma match_anchor_not_lt: \<open>c \<noteq> CHR ''<'' \<Longrightarrow> match_anchor (c # cs) = None\<close>
  by (simp add: match_anchor_def)

lemma rewrite_cross_page_links_skip:
  \<open>CHR ''<'' \<notin> set pre \<Longrightarrow>
     rewrite_cross_page_links (pre @ s) m = pre @ rewrite_cross_page_links s m\<close>
  by (induction pre) (auto simp: rewrite_cross_page_links.simps(2) match_anchor_not_lt)

lemma rewrite_cross_page_links_match:
  \<open>match_anchor s = Some (g, h, i, rest) \<Longrightarrow>
     rewrite_cross_page_links s m = replace_anchor m g h i @ rewrite_cross_page_links rest m\<close>
  by (cases s) (auto simp: rewrite_cross_page_links.simps(2) match_anchor_def)

lemma rewrite_cross_page_links_tag:
  assumes \<open>CHR ''<'' \<notin> set pre\<close> \<open>ws \<noteq> []\<close> \<open>\<forall>c\<in>set ws. is_space c\<close> \<open>CHR ''"'' \<notin> set h\<close>
    \<open>CHR ''>'' \<notin> set attrs\<close> \<open>\<not> str_contains inner ''</a>''\<close>
  shows \<open>rewrite_cross_page_links
      (pre @ ''<a'' @ ws @ ''href="'' @ h @ ''"'' @ attrs @ ''>'' @ inner @ ''</a>'' @ post) m =
    pre @ replace_anchor m (''<a'' @ ws @ ''href="'' @ h @ ''"'' @ attrs @ ''>'' @ inner @ ''</a>'') h inner
      @ rewrite_cross_page_links post m\<close>
  unfolding rewrite_cross_page_links_skip [OF assms(1)]
    rewrite_cross_page_links_match [OF match_anchor_tag [OF assms(2-6)]] ..

lemma startswith_trans: "startswith s p \<Longrightarrow> startswith p q \<Longrightarrow> startswith s q"
  unfolding startswith_iff by auto

lemma startswith_extend: "startswith u p \<Longrightarrow> startswith (u @ t) p"
  unfolding startswith_iff by auto

lemma startswith_length: "startswith u p \<Longrightarrow> length p \<le> length u"
  unfolding startswith_iff by auto

lemma startswith_before:
  "startswith (pre @ x # s) k \<Longrightarrow> x \<notin> set k \<Longrightarrow> startswith pre k"
proof (induction k arbitrary: pre)
  case Nil
  then show ?case by simp
next
  case (Cons a k)
  then show ?case by (cases pre) auto
qed

lemma startswith_long: "length p \<le> length u \<Longrightarrow> startswith (u @ t) p = startswith u p"
  by (simp add: startswith_def)

lemma split_first_length:
  "split_first sub s = Some (a, b) \<Longrightarrow> length sub \<le> length s"
proof (induction s arbitrary: a)
  case Nil
  then show ?case by (simp split: if_splits)
next
  case (Cons c cs)
  show ?case
  proof (cases "startswith (c # cs) sub")
    case True
    then show ?thesis by (rule startswith_length)
  next
    case False
    then obtain a' where "split_first sub cs = Some (a', b)"
      using Cons.prems by auto
    then have "length sub \<le> length cs" by (rule Cons.IH)
    then show ?thesis by simp
  qed
qed

lemma split_first_append:
  "split_first sub s = Some (a, b) \<Longrightarrow> split_first sub (s @ t) = Some (a, b @ t)"
proof (induction s arbitrary: a)
  case Nil
  then show ?case by (cases t) (auto split: if_splits)
next
  case (Cons c cs)
  show ?case
  proof (cases "startswith (c # cs) sub")
    case True
    then have l: "length sub \<le> length (c # cs)" by (rule startswith_length)
    have e: "startswith ((c # cs) @ t) sub" using True by (rule startswith_extend)
    have d: "drop (length sub) ((c # cs) @ t) = drop (length sub) (c # cs) @ t"
      using l by (simp only: drop_append) simp
    have "a = [] \<and> b = drop (length sub) (c # cs)" using True Cons.prems by auto
    then show ?thesis using e d by (simp del: drop_append)
  next
    case False
    then obtain a' where s: "split_first sub cs = Some (a', b)" and a: "a = c # a'"
      using Cons.prems by auto
    have "length sub \<le> length (c # cs)" using split_first_length [OF s] by simp
    then have "\<not> startswith ((c # cs) @ t) sub" using False startswith_long by blast
    then show ?thesis using Cons.IH [OF s] a by simp
  qed
qed

lemma split_first_suffix: "split_first sub s = Some (a, b) \<Longrightarrow> suffix b s"
proof (induction s arbitrary: a)
  case Nil
  then show ?case by (simp split: if_splits)
next
  case (Cons c cs)
  show ?case
  proof (cases "startswith (c # cs) sub")
    case True
    then have "b = drop (length sub) (c # cs)" using Cons.prems by simp
    then show ?thesis by (simp only: suffix_drop)
  next
    case False
    then obtain a' where "split_first sub cs = Some (a', b)"
      using Cons.prems by auto
    then have "suffix b cs" by (rule Cons.IH)
    then show ?thesis by (rule suffix_ConsI)
  qed
qed

lemma dropWhile_extend:
  "dropWhile P r = x # z \<Longrightarrow> dropWhile P (r @ t) = x # z @ t \<and> takeWhile P (r @ t) = takeWhile P r"
proof -
  assume d: "dropWhile P r = x # z"
  then have "dropWhile P r \<noteq> []" by simp
  then obtain y where y: "y \<in> set r" "\<not> P y" by auto
  have "dropWhile P (r @ t) = dropWhile P r @ t" using y by (rule dropWhile_append1)
  moreover have "takeWhile P (r @ t) = takeWhile P r" using y by (rule takeWhile_append1)
  ultimately show ?thesis using d by simp
qed

lemma dropWhile_suffix_Cons: "dropWhile P r = x # z \<Longrightarrow> suffix z r"
  by (metis suffix_ConsD suffix_dropWhile)

lemma match_anchor_opening: \<open>match_anchor s = Some x \<Longrightarrow> anchor_opening s\<close>
  unfolding match_anchor_def anchor_opening_def Let_def by (simp split: if_splits)

lemma match_anchor_extend:
  assumes \<open>match_anchor u = Some (g, h, i, r)\<close>
  shows \<open>match_anchor (u @ t) = Some (g, h, i, r @ t)\<close> and \<open>u = g @ r\<close> and \<open>g \<noteq> []\<close>
proof -
  let ?r1 = \<open>drop 2 u\<close>
  let ?r2 = \<open>dropWhile is_space ?r1\<close>
  let ?r3 = \<open>drop 6 ?r2\<close>
  from assms obtain x r4 y r5 where
    sa: \<open>startswith u ''<a''\<close> and
    ws: \<open>takeWhile is_space ?r1 \<noteq> []\<close> and
    k: \<open>startswith ?r2 ''href="''\<close> and
    r4: \<open>dropWhile (\<lambda>x. x \<noteq> CHR ''"'') ?r3 = x # r4\<close> and
    r5: \<open>dropWhile (\<lambda>x. x \<noteq> CHR ''>'') r4 = y # r5\<close> and
    sp: \<open>split_first ''</a>'' r5 = Some (i, r)\<close> and
    g: \<open>g = take (length u - length r) u\<close> and
    h: \<open>h = takeWhile (\<lambda>x. x \<noteq> CHR ''"'') ?r3\<close>
    unfolding match_anchor_def Let_def
    by (auto split: if_splits list.splits option.splits)
  have lu: \<open>2 \<le> length u\<close> using startswith_length [OF sa] by simp
  have l2: \<open>6 \<le> length ?r2\<close> using startswith_length [OF k] by simp
  have e1: \<open>drop 2 (u @ t) = ?r1 @ t\<close> using lu by simp
  obtain c2 z2 where \<open>?r2 = c2 # z2\<close> using l2 by (cases ?r2) auto
  then have e2: \<open>dropWhile is_space (?r1 @ t) = ?r2 @ t\<close>
    and e3: \<open>takeWhile is_space (?r1 @ t) = takeWhile is_space ?r1\<close>
    using dropWhile_extend [of is_space ?r1 c2 z2 t] by simp_all
  have e4: \<open>drop 6 (?r2 @ t) = ?r3 @ t\<close> using l2 by simp
  have e5: \<open>dropWhile (\<lambda>x. x \<noteq> CHR ''"'') (?r3 @ t) = x # r4 @ t\<close>
    and e6: \<open>takeWhile (\<lambda>x. x \<noteq> CHR ''"'') (?r3 @ t) = h\<close>
    using dropWhile_extend [OF r4, of t] h by simp_all
  have e7: \<open>dropWhile (\<lambda>x. x \<noteq> CHR ''>'') (r4 @ t) = y # r5 @ t\<close>
    using dropWhile_extend [OF r5, of t] by simp
  have e8: \<open>split_first ''</a>'' (r5 @ t) = Some (i, r @ t)\<close>
    using sp by (rule split_first_append)
  have \<open>suffix r r5\<close> using sp by (rule split_first_suffix)
  also have \<open>suffix r5 r4\<close> using r5 by (rule dropWhile_suffix_Cons)
  also have \<open>suffix r4 ?r3\<close> using r4 by (rule dropWhile_suffix_Cons)
  also have \<open>suffix ?r3 ?r2\<close> by (rule suffix_drop)
  also have \<open>suffix ?r2 ?r1\<close> by (rule suffix_dropWhile)
  also have \<open>suffix ?r1 u\<close> by (rule suffix_drop)
  finally obtain w where w: \<open>u = w @ r\<close> unfolding suffix_def by blast
  then have gw: \<open>g = w\<close> using g by simp
  show \<open>u = g @ r\<close> using w gw by simp
  have \<open>length r < length u\<close> using assms by (rule match_anchor_shorter)
  then show \<open>g \<noteq> []\<close> using w gw by auto
  have e9: \<open>take (length (u @ t) - length (r @ t)) (u @ t) = g\<close>
    using w gw by simp
  have s': \<open>startswith (u @ t) ''<a''\<close> using sa by (rule startswith_extend)
  have k': \<open>startswith (?r2 @ t) ''href="''\<close> using k by (rule startswith_extend)
  show \<open>match_anchor (u @ t) = Some (g, h, i, r @ t)\<close>
    unfolding match_anchor_def Let_def e1 e2 e3 e4 e5 e6
    using s' k' ws
    by (simp only: if_True if_False list.case e7 e8 option.case prod.case e9)
qed

lemma anchor_opening_before:
  assumes \<open>anchor_opening (u @ CHR ''<'' # t)\<close> \<open>u \<noteq> []\<close>
  shows \<open>anchor_opening u\<close>
proof -
  let ?s = \<open>u @ CHR ''<'' # t\<close>
  from assms(1) have sa: \<open>startswith ?s ''<a''\<close>
    and ws: \<open>takeWhile is_space (drop 2 ?s) \<noteq> []\<close>
    and k: \<open>startswith (dropWhile is_space (drop 2 ?s)) ''href="''\<close>
    unfolding anchor_opening_def by simp_all
  obtain b u' where u: \<open>u = b # u'\<close> using assms(2) by (cases u) auto
  have \<open>b = CHR ''<'' \<and> startswith (u' @ CHR ''<'' # t) ''a''\<close> using sa u by simp
  then have b: \<open>b = CHR ''<''\<close> and \<open>startswith u' ''a''\<close>
    using startswith_before [of u' "CHR ''<''" t "''a''"] by simp_all
  then obtain u'' where u': \<open>u' = CHR ''a'' # u''\<close> by (cases u') auto
  have su: \<open>startswith u ''<a''\<close> using u b u' by simp
  have d: \<open>drop 2 ?s = u'' @ CHR ''<'' # t\<close> \<open>drop 2 u = u''\<close> using u u' by simp_all
  have ns: \<open>\<not> is_space CHR ''<''\<close> by (simp add: is_space_def)
  have nall: \<open>\<not> (\<forall>c\<in>set u''. is_space c)\<close>
  proof
    assume a: \<open>\<forall>c\<in>set u''. is_space c\<close>
    then have \<open>dropWhile is_space (u'' @ CHR ''<'' # t) = CHR ''<'' # t\<close>
      using ns by (simp add: dropWhile_append2)
    then show False using k d by simp
  qed
  then obtain c where c: \<open>c \<in> set u''\<close> \<open>\<not> is_space c\<close> by blast
  have t1: \<open>takeWhile is_space (u'' @ CHR ''<'' # t) = takeWhile is_space u''\<close>
    using c by (rule takeWhile_append1)
  have d1: \<open>dropWhile is_space (u'' @ CHR ''<'' # t) = dropWhile is_space u'' @ CHR ''<'' # t\<close>
    using c by (rule dropWhile_append1)
  have \<open>startswith (dropWhile is_space u'' @ CHR ''<'' # t) ''href="''\<close>
    using k d d1 by simp
  then have \<open>startswith (dropWhile is_space u'') ''href="''\<close>
    by (rule startswith_before) simp
  then show ?thesis
    unfolding anchor_opening_def using su ws d t1 by simp
qed

lemma anchors_closed_suffix: \<open>anchors_closed (x @ y) \<Longrightarrow> anchors_closed y\<close>
  by (induction x) auto

lemma rewrite_cross_page_links_no_match:
  \<open>match_anchor (c # cs) = None \<Longrightarrow>
     rewrite_cross_page_links (c # cs) m = c # rewrite_cross_page_links cs m\<close>
  by (simp add: rewrite_cross_page_links.simps(2))

lemma rewrite_cross_page_links_append:
  assumes \<open>anchors_closed pre\<close>
  shows \<open>rewrite_cross_page_links (pre @ CHR ''<'' # s) m =
     rewrite_cross_page_links pre m @ rewrite_cross_page_links (CHR ''<'' # s) m\<close>
  using assms
proof (induction "length pre" arbitrary: pre rule: less_induct)
  case less
  show ?case
  proof (cases pre)
    case Nil
    then show ?thesis by simp
  next
    case (Cons c cs)
    have cs: \<open>anchors_closed cs\<close> using less.prems Cons by simp
    have ih: \<open>rewrite_cross_page_links (cs @ CHR ''<'' # s) m =
        rewrite_cross_page_links cs m @ rewrite_cross_page_links (CHR ''<'' # s) m\<close>
      using less.hyps [of cs] cs Cons by simp
    show ?thesis
    proof (cases \<open>match_anchor pre\<close>)
      case None
      then have \<open>\<not> anchor_opening pre\<close> using less.prems Cons by auto
      then have \<open>\<not> anchor_opening (pre @ CHR ''<'' # s)\<close>
        using anchor_opening_before [of pre s] Cons by auto
      then have \<open>match_anchor (pre @ CHR ''<'' # s) = None\<close>
        using match_anchor_opening by (cases \<open>match_anchor (pre @ CHR ''<'' # s)\<close>) auto
      then show ?thesis
        using None ih Cons by (simp add: rewrite_cross_page_links_no_match)
    next
      case (Some x)
      obtain g h i r where x: \<open>x = (g, h, i, r)\<close> by (cases x) auto
      have mp: \<open>match_anchor pre = Some (g, h, i, r)\<close> using Some x by simp
      have ms: \<open>match_anchor (pre @ CHR ''<'' # s) = Some (g, h, i, r @ CHR ''<'' # s)\<close>
        using mp by (rule match_anchor_extend(1))
      have y: \<open>pre = g @ r\<close> \<open>g \<noteq> []\<close>
        using match_anchor_extend(2,3) [OF mp] by simp_all
      then have \<open>length r < length pre\<close> by (cases g) auto
      moreover have \<open>anchors_closed r\<close> using less.prems y(1) anchors_closed_suffix by metis
      ultimately have \<open>rewrite_cross_page_links (r @ CHR ''<'' # s) m =
          rewrite_cross_page_links r m @ rewrite_cross_page_links (CHR ''<'' # s) m\<close>
        using less.hyps by blast
      then show ?thesis
        unfolding rewrite_cross_page_links_match [OF mp] rewrite_cross_page_links_match [OF ms]
        by simp
    qed
  qed
qed

lemma rewrite_cross_page_links_at_tag:
  assumes \<open>anchors_closed pre\<close> \<open>ws \<noteq> []\<close> \<open>\<forall>c\<in>set ws. is_space c\<close> \<open>CHR ''"'' \<notin> set h\<close>
    \<open>CHR ''>'' \<notin> set attrs\<close> \<open>\<not> str_contains inner ''</a>''\<close>
  shows \<open>rewrite_cross_page_links (pre @ anchor_tag ws h attrs inner @ post) m =
    rewrite_cross_page_links pre m @
    replace_anchor m (anchor_tag ws h attrs inner) h inner @
    rewrite_cross_page_links post m\<close>
proof -
  have e: \<open>CHR ''<'' \<notin> set []\<close> by simp
  obtain s where s: \<open>anchor_tag ws h attrs inner @ post = CHR ''<'' # s\<close>
    by (simp add: anchor_tag_def)
  have \<open>rewrite_cross_page_links (anchor_tag ws h attrs inner @ post) m =
      replace_anchor m (anchor_tag ws h attrs inner) h inner @ rewrite_cross_page_links post m\<close>
    using rewrite_cross_page_links_tag [OF e assms(2-6), of post m] by (simp add: anchor_tag_def)
  then show ?thesis
    using rewrite_cross_page_links_append [OF assms(1), of s m] s by simp
qed

text \<open>
  C4 (as amended). Take an anchor tag as the pattern reads it: \<open><a\<close>, white space,
  a double-quoted href as the first attribute, further attributes up to the first
  \<^verbatim>\<open>>\<close>, and the text up to the first \<^verbatim>\<open></a>\<close>; in front of it stands a text in
  which no anchor is left open (\<open>anchors_closed pre\<close>). The texts in front of the tag
  and behind it are rewritten on their own. If the href starts with \<open>#\<close>,
  \<open>http://\<close> or \<open>https://\<close> the tag is passed through unchanged. If it starts with
  neither \<open>#\<close> nor \<open>http\<close>, the text in front of its first \<open>#\<close> is looked up in the
  page URL map: a hit gives a tag with the mapped URL as its only attribute, a miss
  gives the text of the link inside \<open><strong>\<close>.
\<close>

theorem rewrite_cross_page_links_classifies:
  assumes \<open>anchors_closed pre\<close> \<open>ws \<noteq> []\<close> \<open>\<forall>c\<in>set ws. is_space c\<close> \<open>CHR ''"'' \<notin> set h\<close>
    \<open>CHR ''>'' \<notin> set attrs\<close> \<open>\<not> str_contains inner ''</a>''\<close>
  shows \<open>(startswith h ''#'' \<or> startswith h ''http://'' \<or> startswith h ''https://'' \<longrightarrow>
            rewrite_cross_page_links (pre @ anchor_tag ws h attrs inner @ post) m =
              rewrite_cross_page_links pre m @ anchor_tag ws h attrs inner @
              rewrite_cross_page_links post m) \<and>
         (\<not> startswith h ''#'' \<and> \<not> startswith h ''http'' \<longrightarrow>
            (\<forall>url. m (takeWhile (\<lambda>x. x \<noteq> CHR ''#'') h) = Some url \<longrightarrow>
               rewrite_cross_page_links (pre @ anchor_tag ws h attrs inner @ post) m =
                 rewrite_cross_page_links pre m @ ''<a href="'' @ url @ ''">'' @ inner @ ''</a>'' @
                 rewrite_cross_page_links post m) \<and>
            (m (takeWhile (\<lambda>x. x \<noteq> CHR ''#'') h) = None \<longrightarrow>
               rewrite_cross_page_links (pre @ anchor_tag ws h attrs inner @ post) m =
                 rewrite_cross_page_links pre m @ ''<strong>'' @ inner @ ''</strong>'' @
                 rewrite_cross_page_links post m))\<close>
proof -
  have k: \<open>startswith h ''http''\<close> if \<open>startswith h ''http://'' \<or> startswith h ''https://''\<close>
    using that startswith_trans [of h "''http://''" "''http''"]
      startswith_trans [of h "''https://''" "''http''"] by auto
  show ?thesis
    unfolding rewrite_cross_page_links_at_tag [OF assms]
    using k by (auto simp: replace_anchor_def)
qed

theorem rewrite_cross_page_links_classifies_witness:
  \<open>rewrite_cross_page_links ''<p><a href="#top">up</a> <a href="b.html#sec">text</a></p>''
       [''b.html'' \<mapsto> ''https://wiki/b''] =
     ''<p><a href="#top">up</a> <a href="https://wiki/b">text</a></p>'' \<and>
   rewrite_cross_page_links ''<p><a href="#top">up</a> <a href="z.html">text</a></p>''
       [''b.html'' \<mapsto> ''https://wiki/b''] =
     ''<p><a href="#top">up</a> <strong>text</strong></p>'' \<and>
   rewrite_cross_page_links ''<p><a href="#top">up</a> <a href="#sec">text</a></p>''
       [''b.html'' \<mapsto> ''https://wiki/b''] =
     ''<p><a href="#top">up</a> <a href="#sec">text</a></p>'' \<and>
   rewrite_cross_page_links ''<p><a href="#top">up</a> <a href="https://x">text</a></p>''
       [''b.html'' \<mapsto> ''https://wiki/b''] =
     ''<p><a href="#top">up</a> <a href="https://x">text</a></p>''\<close>
proof -
  let ?m = \<open>[''b.html'' \<mapsto> ''https://wiki/b'']\<close>
  let ?pre = \<open>''<p><a href="#top">up</a> ''\<close>
  have c: \<open>anchors_closed ?pre\<close> by code_simp
  have rp: \<open>rewrite_cross_page_links ?pre ?m = ?pre\<close> by code_simp
  have rq: \<open>rewrite_cross_page_links ''</p>'' ?m = ''</p>''\<close> by code_simp
  have a: \<open>'' '' \<noteq> []\<close> \<open>\<forall>c\<in>set '' ''. is_space c\<close>
    \<open>CHR ''>'' \<notin> set []\<close> \<open>\<not> str_contains ''text'' ''</a>''\<close>
    by (simp_all add: is_space_def)
  have 1: \<open>CHR ''"'' \<notin> set ''b.html#sec''\<close> and 2: \<open>CHR ''"'' \<notin> set ''z.html''\<close>
    and 3: \<open>CHR ''"'' \<notin> set ''#sec''\<close> and 4: \<open>CHR ''"'' \<notin> set ''https://x''\<close>
    by simp_all
  show ?thesis
    using rewrite_cross_page_links_classifies [OF c a(1,2) 1 a(3,4), of "''</p>''" ?m]
      rewrite_cross_page_links_classifies [OF c a(1,2) 2 a(3,4), of "''</p>''" ?m]
      rewrite_cross_page_links_classifies [OF c a(1,2) 3 a(3,4), of "''</p>''" ?m]
      rewrite_cross_page_links_classifies [OF c a(1,2) 4 a(3,4), of "''</p>''" ?m]
    unfolding rp rq by (simp add: anchor_tag_def)
qed

theorem rewrite_cross_page_links_counterexample:
  \<open>rewrite_cross_page_links ''<a class="c" href="z.html">text</a>'' Map.empty =
     ''<a class="c" href="z.html">text</a>''\<close>
  by code_simp

text \<open>
  C10 (as amended). Take an anchor tag as the pattern reads it (the further attributes
  end at the first \<^verbatim>\<open>>\<close>, the text at the first \<^verbatim>\<open></a>\<close>), in front of which no
  anchor is left open, and whose href starts with neither \<open>#\<close> nor \<open>http\<close>. The
  result does not depend on the further attributes: it is the one for the tag without
  them. On a hit the new tag has the mapped URL as its only attribute and the text as
  the pattern reads it, unchanged; on a miss that text stands unchanged inside
  \<open><strong>\<close>.
\<close>

theorem rewrite_cross_page_links_drops_attributes:
  assumes \<open>anchors_closed pre\<close> \<open>ws \<noteq> []\<close> \<open>\<forall>c\<in>set ws. is_space c\<close> \<open>CHR ''"'' \<notin> set h\<close>
    \<open>CHR ''>'' \<notin> set attrs\<close> \<open>\<not> str_contains inner ''</a>''\<close>
    \<open>\<not> startswith h ''#''\<close> \<open>\<not> startswith h ''http''\<close>
  shows \<open>rewrite_cross_page_links (pre @ anchor_tag ws h attrs inner @ post) m =
           rewrite_cross_page_links (pre @ anchor_tag ws h [] inner @ post) m \<and>
         rewrite_cross_page_links (pre @ anchor_tag ws h attrs inner @ post) m =
           rewrite_cross_page_links pre m @
           (case m (takeWhile (\<lambda>x. x \<noteq> CHR ''#'') h) of
              Some url \<Rightarrow> ''<a href="'' @ url @ ''">'' @ inner @ ''</a>''
            | None \<Rightarrow> ''<strong>'' @ inner @ ''</strong>'') @
           rewrite_cross_page_links post m\<close>
proof -
  have e: \<open>CHR ''>'' \<notin> set []\<close> by simp
  have g: \<open>replace_anchor m g0 h inner =
      (case m (takeWhile (\<lambda>x. x \<noteq> CHR ''#'') h) of
         Some url \<Rightarrow> ''<a href="'' @ url @ ''">'' @ inner @ ''</a>''
       | None \<Rightarrow> ''<strong>'' @ inner @ ''</strong>'')\<close> for g0
    using assms(7,8) by (simp add: replace_anchor_def)
  show ?thesis
    unfolding rewrite_cross_page_links_at_tag [OF assms(1-6)]
      rewrite_cross_page_links_at_tag [OF assms(1-4) e assms(6)] g by simp
qed

theorem rewrite_cross_page_links_drops_attributes_witness:
  \<open>rewrite_cross_page_links
       ''<p>see <a href="b.html#sec" class="x" title="T" target="_blank">the text</a></p>''
       [''b.html'' \<mapsto> ''https://wiki/b''] =
     ''<p>see <a href="https://wiki/b">the text</a></p>'' \<and>
   rewrite_cross_page_links ''<p>see <a href="z.html" class="x">the text</a></p>''
       [''b.html'' \<mapsto> ''https://wiki/b''] =
     ''<p>see <strong>the text</strong></p>''\<close>
proof -
  let ?m = \<open>[''b.html'' \<mapsto> ''https://wiki/b'']\<close>
  have c: \<open>anchors_closed ''<p>see ''\<close> by code_simp
  have rp: \<open>rewrite_cross_page_links ''<p>see '' ?m = ''<p>see ''\<close> by code_simp
  have rq: \<open>rewrite_cross_page_links ''</p>'' ?m = ''</p>''\<close> by code_simp
  have a: \<open>'' '' \<noteq> []\<close> \<open>\<forall>c\<in>set '' ''. is_space c\<close>
    \<open>\<not> str_contains ''the text'' ''</a>''\<close>
    by (simp_all add: is_space_def)
  have 1: \<open>CHR ''"'' \<notin> set ''b.html#sec''\<close>
      \<open>CHR ''>'' \<notin> set '' class="x" title="T" target="_blank"''\<close>
      \<open>\<not> startswith ''b.html#sec'' ''#''\<close> \<open>\<not> startswith ''b.html#sec'' ''http''\<close>
    by simp_all
  have 2: \<open>CHR ''"'' \<notin> set ''z.html''\<close> \<open>CHR ''>'' \<notin> set '' class="x"''\<close>
      \<open>\<not> startswith ''z.html'' ''#''\<close> \<open>\<not> startswith ''z.html'' ''http''\<close>
    by simp_all
  show ?thesis
    using rewrite_cross_page_links_drops_attributes
        [OF c a(1,2) 1(1,2) a(3) 1(3,4), of "''</p>''" ?m, THEN conjunct2]
      rewrite_cross_page_links_drops_attributes
        [OF c a(1,2) 2(1,2) a(3) 2(3,4), of "''</p>''" ?m, THEN conjunct2]
    unfolding rp rq by (simp add: anchor_tag_def)
qed

theorem rewrite_cross_page_links_attribute_leak:
  \<open>rewrite_cross_page_links ''<a href="b.html" title="a>b">text</a>''
       [''b.html'' \<mapsto> ''https://wiki/b''] =
     ''<a href="https://wiki/b">b">text</a>''\<close>
  by code_simp

section \<open>Title extraction (md\_to\_html.py, extract\_title)\<close>

text \<open>
  The pattern is \<^verbatim>\<open>^#\s+(.+)$\<close> with \<open>MULTILINE\<close>. Behind the \<open>#\<close> the greedy \<^verbatim>\<open>\s+\<close>
  takes the whole run of white space (line breaks are white space) and gives back one
  character at a time, down to one character, while the rest fails. The rest, \<^verbatim>\<open>(.+)$\<close>,
  takes every character up to the next line break, at least one; where it stops the
  \<open>$\<close> holds (the end of the text or a line break follows).
\<close>

fun h1_backtrack :: "nat \<Rightarrow> string \<Rightarrow> string option" where
  \<comment> \<open>\<open>k\<close> characters of white space taken from \<open>r\<close>: group 1, or one character less\<close>
  "h1_backtrack 0 r = None"
| "h1_backtrack (Suc k) r =
     (let g = takeWhile (\<lambda>x. x \<noteq> CHR 0x0A) (drop (Suc k) r)
      in if g \<noteq> [] then Some g else h1_backtrack k r)"

definition match_h1 :: "string \<Rightarrow> string option" where
  \<comment> \<open>\<^verbatim>\<open>#\s+(.+)$\<close> at the start of \<open>s\<close>: group 1\<close>
  "match_h1 s =
     (case s of
        [] \<Rightarrow> None
      | c # r \<Rightarrow> if c = CHR ''#'' then h1_backtrack (length (takeWhile is_space r)) r else None)"

fun search_h1 :: "bool \<Rightarrow> string \<Rightarrow> string option" where
  \<comment> \<open>\<open>re.search\<close>: the first position where the pattern matches; \<open>^\<close> holds at the
      start of the text and behind a line break (the flag)\<close>
  "search_h1 bol [] = None"
| "search_h1 bol (c # cs) =
     (case (if bol then match_h1 (c # cs) else None) of
        Some g \<Rightarrow> Some g
      | None \<Rightarrow> search_h1 (c = CHR 0x0A) cs)"

definition extract_title :: "string \<Rightarrow> string" where
  \<comment> \<open>\<open>m.group(1).strip() if m else "Document"\<close>\<close>
  "extract_title md_text =
     (case search_h1 True md_text of
        Some g \<Rightarrow> strip_chars is_space g
      | None \<Rightarrow> ''Document'')"

section \<open>Properties of title extraction\<close>

lemma extract_title_examples:
  "extract_title ''# My Title\<newline>\<newline>body'' = ''My Title''"
  "extract_title ''no heading here\<newline>## second level\<newline>'' = ''Document''"
  by code_simp+

text \<open>
  C9. The extraction is meant to return the text of the first top-level heading line.
  The white space behind the \<open>#\<close> may be a line break, so for a text whose first line is
  a lone \<open>#\<close> the extraction returns the next line, which is no heading, and not the
  heading \<open>Real Title\<close> that follows.
\<close>

theorem extract_title_crosses_lines:
  "extract_title ''#\<newline>foo\<newline># Real Title\<newline>'' = ''foo''"
  by code_simp

section \<open>Canonical URL (md\_to\_html.py, confluence\_page\_url)\<close>


function str_replace :: "string \<Rightarrow> string \<Rightarrow> string \<Rightarrow> string" where
  \<comment> \<open>\<open>s.replace(old, new)\<close>: the occurrences of \<open>old\<close> are replaced left to right
      and do not overlap; an empty \<open>old\<close> matches in front of every character and
      at the end\<close>
  "str_replace [] old new = (if old = [] then new else [])"
| "str_replace (c # cs) old new =
     (if old = [] then new @ c # str_replace cs old new
      else if startswith (c # cs) old then new @ str_replace (drop (length old) (c # cs)) old new
      else c # str_replace cs old new)"
  by pat_completeness auto
termination
  by (relation "measure (\<lambda>(s, old, new). length s)") auto

declare str_replace.simps(2) [simp del]

definition CONFLUENCE_BASE :: string where
  "CONFLUENCE_BASE = ''https://rezolvetech.atlassian.net''"

definition CONFLUENCE_SPACE :: string where
  "CONFLUENCE_SPACE = ''RAIL''"

definition utf8_char :: "char \<Rightarrow> nat list" where
  \<comment> \<open>the bytes of a code point below 256 in UTF-8\<close>
  "utf8_char c =
     (let n = of_char c :: nat
      in if n < 128 then [n] else [192 + n div 64, 128 + n mod 64])"

definition encode_utf8 :: "string \<Rightarrow> nat list" where
  \<comment> \<open>\<open>s.encode("utf-8")\<close>\<close>
  "encode_utf8 s = concat (map utf8_char s)"

definition hex_digit :: "nat \<Rightarrow> char" where
  \<comment> \<open>a digit of the format \<open>%02X\<close>\<close>
  "hex_digit n = (if n < 10 then char_of (48 + n) else char_of (55 + n))"

definition always_safe :: string where
  \<comment> \<open>the characters \<open>urllib.parse.quote\<close> never quotes\<close>
  "always_safe = ''ABCDEFGHIJKLMNOPQRSTUVWXYZabcdefghijklmnopqrstuvwxyz0123456789_.-~''"

definition percent :: "nat \<Rightarrow> string" where
  "percent b = [CHR ''%'', hex_digit (b div 16), hex_digit (b mod 16)]"

definition quote_byte :: "string \<Rightarrow> nat \<Rightarrow> string" where
  \<comment> \<open>a byte stays when it is a safe ASCII character and becomes \<open>%XX\<close> otherwise\<close>
  "quote_byte safe b =
     (if b < 128 \<and> char_of b \<in> set (always_safe @ safe) then [char_of b] else percent b)"

definition quote :: "string \<Rightarrow> string \<Rightarrow> string" where
  \<comment> \<open>\<open>urllib.parse.quote(s, safe=safe)\<close> of the standard library\<close>
  "quote s safe = concat (map (quote_byte safe) (encode_utf8 s))"

definition confluence_page_url :: "string \<Rightarrow> string" where
  \<comment> \<open>\<open>quote(title, safe="-_. ")\<close>, then \<open>slug.replace(" ", "+")\<close>, behind the base path\<close>
  "confluence_page_url title =
     (let slug = quote title ''-_. '';
          slug = str_replace slug '' '' ''+''
      in CONFLUENCE_BASE @ ''/wiki/display/'' @ CONFLUENCE_SPACE @ ''/'' @ slug)"

text \<open>
  The specification's reading of the path segment, character by character: a space is
  rendered as \<open>+\<close>, an unreserved character stays, every other character becomes the
  percent-encoding of its UTF-8 bytes.
\<close>

definition spec_segment_char :: "char \<Rightarrow> string" where
  "spec_segment_char c =
     (if c = CHR '' '' then ''+''
      else if c \<in> set always_safe then [c]
      else concat (map percent (utf8_char c)))"

section \<open>Properties of the canonical URL\<close>

lemma str_replace_char:
  "str_replace s [old] new = concat (map (\<lambda>c. if c = old then new else [c]) s)"
  by (induction s) (auto simp: str_replace.simps(2))

lemma quote_concat:
  "quote s safe = concat (map (\<lambda>c. concat (map (quote_byte safe) (utf8_char c))) s)"
  unfolding quote_def encode_utf8_def by (induction s) auto

lemma hex_digit_not_space: "k < 16 \<Longrightarrow> hex_digit k \<noteq> CHR '' ''"
  by (auto simp: hex_digit_def char_of_eq_iff take_bit_eq_mod)

lemma space_percent:
  "b < 256 \<Longrightarrow> concat (map (\<lambda>c. if c = CHR '' '' then ''+'' else [c]) (percent b)) = percent b"
  by (simp add: percent_def hex_digit_not_space)

lemma of_char_byte: "(of_char c :: nat) < 256"
  using of_char_mod_256 [of c, where ?'a = nat] by (metis mod_less_divisor zero_less_numeral)

lemma always_safe_ascii: "c \<in> set always_safe \<Longrightarrow> (of_char c :: nat) < 128"
  by (auto simp: always_safe_def)

lemma segment_char:
  "concat (map (\<lambda>c. if c = CHR '' '' then ''+'' else [c])
      (concat (map (quote_byte ''-_. '') (utf8_char c)))) = spec_segment_char c"
proof (cases "(of_char c :: nat) < 128")
  case True
  have s: "c \<in> set (always_safe @ ''-_. '') \<longleftrightarrow> c = CHR '' '' \<or> c \<in> set always_safe"
    by (auto simp: always_safe_def)
  have n: "CHR '' '' \<notin> set always_safe" by (simp add: always_safe_def)
  have q: "quote_byte ''-_. '' (of_char c) =
      (if c = CHR '' '' \<or> c \<in> set always_safe then [c] else percent (of_char c))"
    using True unfolding quote_byte_def s [symmetric] by simp
  have u: "utf8_char c = [of_char c]" using True by (simp add: utf8_char_def)
  show ?thesis
    unfolding u using n of_char_byte [of c]
    by (auto simp: q spec_segment_char_def space_percent u)
next
  case False
  then have "c \<noteq> CHR '' ''" "c \<notin> set always_safe"
    using always_safe_ascii by auto
  moreover have "(of_char c :: nat) div 64 < 4"
    by (rule less_mult_imp_div_less) (simp add: of_char_byte)
  then have "192 + (of_char c :: nat) div 64 < 256" by simp
  moreover have "(of_char c :: nat) mod 64 < 64" by simp
  then have "128 + (of_char c :: nat) mod 64 < 256" by simp
  ultimately show ?thesis
    using False
    by (simp add: utf8_char_def quote_byte_def spec_segment_char_def space_percent Let_def)
qed

lemma slug_refines:
  "str_replace (quote title ''-_. '') '' '' ''+'' = concat (map spec_segment_char title)"
  unfolding str_replace_char quote_concat
  by (induction title) (simp_all add: segment_char)

lemma hex_digit_eq:
  "k < 16 \<Longrightarrow> hex_digit k \<noteq> CHR ''%''"
  "k < 16 \<Longrightarrow> hex_digit k = CHR ''2'' \<longleftrightarrow> k = 2"
  "k < 16 \<Longrightarrow> hex_digit k = CHR ''0'' \<longleftrightarrow> k = 0"
  by (auto simp: hex_digit_def char_of_eq_iff take_bit_eq_mod)

lemma no_pct20_Cons: "c \<noteq> CHR ''%'' \<Longrightarrow> str_contains (c # out) ''%20'' = str_contains out ''%20''"
  by simp

lemma no_pct20_percent:
  assumes "b < 256" "b \<noteq> 32"
  shows "str_contains (percent b @ out) ''%20'' = str_contains out ''%20''"
proof -
  have d: "b div 16 < 16" by (rule less_mult_imp_div_less) (use assms(1) in simp)
  have m: "b mod 16 < 16" by simp
  have "\<not> (b div 16 = 2 \<and> b mod 16 = 0)"
  proof
    assume "b div 16 = 2 \<and> b mod 16 = 0"
    then have "b = 2 * 16 + 0" by (metis add.commute add_cancel_right_left div_mult_mod_eq mult.commute)
    then show False using assms(2) by simp
  qed
  then show ?thesis
    using hex_digit_eq [OF d] hex_digit_eq [OF m] by (auto simp: percent_def)
qed

lemma no_pct20_segment:
  "str_contains (spec_segment_char c @ out) ''%20'' = str_contains out ''%20''"
proof (cases "(of_char c :: nat) < 128")
  case True
  have p: "CHR ''%'' \<notin> set always_safe" by (simp add: always_safe_def)
  have u: "utf8_char c = [of_char c]" using True by (simp add: utf8_char_def)
  have "(of_char c :: nat) \<noteq> 32" if "c \<noteq> CHR '' ''"
  proof
    assume "(of_char c :: nat) = 32"
    then have "(of_char c :: nat) = of_char CHR '' ''" by simp
    then show False using that by (simp only: of_char_eq_iff)
  qed
  then show ?thesis
    using p no_pct20_percent [OF of_char_byte [of c]]
    by (auto simp: spec_segment_char_def u)
next
  case False
  have d: "(of_char c :: nat) div 64 < 4"
    by (rule less_mult_imp_div_less) (simp add: of_char_byte)
  have 1: "192 + (of_char c :: nat) div 64 < 256" "192 + (of_char c :: nat) div 64 \<noteq> 32"
    using d by simp_all
  have 2: "128 + (of_char c :: nat) mod 64 < 256" "128 + (of_char c :: nat) mod 64 \<noteq> 32"
    by simp_all
  have "c \<noteq> CHR '' ''" "c \<notin> set always_safe" using False always_safe_ascii by auto
  then show ?thesis
    using False no_pct20_percent [OF 1] no_pct20_percent [OF 2]
    by (simp add: spec_segment_char_def utf8_char_def Let_def)
qed

lemma no_pct20_slug: "\<not> str_contains (concat (map spec_segment_char title)) ''%20''"
  by (induction title) (simp_all add: no_pct20_segment)

lemma no_space_segment: "CHR '' '' \<notin> set (spec_segment_char c)"
proof -
  have n: "CHR '' '' \<notin> set always_safe" by (simp add: always_safe_def)
  have p: "CHR '' '' \<notin> set (percent b)" if "b < 256" for b
  proof -
    have "b div 16 < 16" by (rule less_mult_imp_div_less) (use that in simp)
    then have 1: "hex_digit (b div 16) \<noteq> CHR '' ''" by (rule hex_digit_not_space)
    have "b mod 16 < 16" by simp
    then have 2: "hex_digit (b mod 16) \<noteq> CHR '' ''" by (rule hex_digit_not_space)
    show ?thesis using 1 2 by (auto simp: percent_def)
  qed
  have d: "(of_char c :: nat) div 64 < 4"
    by (rule less_mult_imp_div_less) (simp add: of_char_byte)
  have b: "\<forall>b\<in>set (utf8_char c). b < 256"
    using d of_char_byte [of c] by (auto simp: utf8_char_def Let_def)
  show ?thesis
    using n p b by (auto simp: spec_segment_char_def)
qed

text \<open>
  C8. For every title the URL is the fixed base path followed by the title as the
  specification reads the path segment (\<open>spec_segment_char\<close> for each character):
  percent-encoded, with \<open>+\<close> for each space. The URL holds no space and no \<open>%20\<close>.
  The title \<open>A/B Design\<close> gives the segment \<open>A%2FB+Design\<close>.
\<close>

theorem confluence_page_url_encodes:
  "confluence_page_url title =
     ''https://rezolvetech.atlassian.net/wiki/display/RAIL/'' @ concat (map spec_segment_char title) \<and>
   CHR '' '' \<notin> set (confluence_page_url title) \<and>
   \<not> str_contains (confluence_page_url title) ''%20'' \<and>
   confluence_page_url ''A/B Design'' =
     ''https://rezolvetech.atlassian.net/wiki/display/RAIL/A%2FB+Design''"
proof -
  have u: "confluence_page_url t =
      ''https://rezolvetech.atlassian.net/wiki/display/RAIL/'' @ concat (map spec_segment_char t)" for t
    by (simp add: confluence_page_url_def slug_refines CONFLUENCE_BASE_def CONFLUENCE_SPACE_def)
  have s: "CHR '' '' \<notin> set (confluence_page_url title)"
    unfolding u using no_space_segment by auto
  have p: "\<not> str_contains (confluence_page_url title) ''%20''"
    unfolding u using no_pct20_slug [of title] by simp
  have e: "confluence_page_url ''A/B Design'' =
      ''https://rezolvetech.atlassian.net/wiki/display/RAIL/A%2FB+Design''"
    by code_simp
  show ?thesis using u s p e by blast
qed

section \<open>Markup conversion (md\_to\_html.py, md\_to\_html)\<close>

definition extensions :: "string list" where
  "extensions = [''tables'', ''fenced_code'', ''toc'', ''nl2br'', ''pymdownx.superfences'']"

definition safe_extensions :: "string list" where
  "safe_extensions = [''tables'', ''fenced_code'', ''toc'', ''sane_lists'']"

text \<open>
  \<open>markdown.markdown\<close> is a library function and a parameter here: for a text and a list
  of extensions it returns the HTML (\<open>Inr\<close>) or raises an exception (\<open>Inl\<close>, an
  instance of \<open>Exception\<close>, which is what \<open>except Exception\<close> catches). Next to its
  result the model returns the extension lists of the calls it made, in their order.
\<close>

definition md_to_html ::
  "(string \<Rightarrow> string list \<Rightarrow> 'e + string) \<Rightarrow> string \<Rightarrow> ('e + string) \<times> string list list" where
  "md_to_html markdown md_text =
     (case markdown md_text extensions of
        Inr body \<Rightarrow> (Inr body, [extensions])
      | Inl e \<Rightarrow> (markdown md_text safe_extensions, [extensions, safe_extensions]))"

section \<open>Properties of the markup conversion\<close>

text \<open>
  C7. The first call uses the full extension list. If it returns, its result is the
  result and there is no other call. If it raises, there is one more call, with the
  safe list, and its outcome is the outcome: the HTML, or the exception it raises.
  There is a second call if and only if the first one raises, and never a third.
\<close>

theorem md_to_html_two_tier:
  "(\<forall>body. markdown md_text extensions = Inr body \<longrightarrow>
      md_to_html markdown md_text = (Inr body, [extensions])) \<and>
   (\<forall>e. markdown md_text extensions = Inl e \<longrightarrow>
      md_to_html markdown md_text = (markdown md_text safe_extensions, [extensions, safe_extensions]) \<and>
      (\<forall>e'. markdown md_text safe_extensions = Inl e' \<longrightarrow>
         fst (md_to_html markdown md_text) = Inl e')) \<and>
   (snd (md_to_html markdown md_text) = [extensions, safe_extensions] \<longleftrightarrow>
      isl (markdown md_text extensions)) \<and>
   (snd (md_to_html markdown md_text) = [extensions] \<longleftrightarrow>
      \<not> isl (markdown md_text extensions)) \<and>
   extensions \<noteq> safe_extensions"
  by (cases "markdown md_text extensions")
    (auto simp: md_to_html_def extensions_def safe_extensions_def)

theorem md_to_html_two_tier_witness:
  "md_to_html (\<lambda>t exts. Inr (''<p>'' @ t @ ''</p>'') :: string + string) ''hi'' =
     (Inr ''<p>hi</p>'', [extensions]) \<and>
   md_to_html (\<lambda>t exts. if ''pymdownx.superfences'' \<in> set exts then Inl ''conflict''
                           else Inr (''<p>'' @ t @ ''</p>'')) ''hi'' =
     (Inr ''<p>hi</p>'', [extensions, safe_extensions]) \<and>
   md_to_html (\<lambda>t exts. Inl (''bad document'', exts)) ''hi'' =
     (Inl (''bad document'', safe_extensions), [extensions, safe_extensions])"
proof -
  let ?f = "\<lambda>t exts. Inr (''<p>'' @ t @ ''</p>'') :: string + string"
  let ?g = "\<lambda>(t :: string) exts. if ''pymdownx.superfences'' \<in> set exts then Inl ''conflict''
                           else Inr (''<p>'' @ t @ ''</p>'')"
  let ?h = "\<lambda>(t :: string) (exts :: string list). Inl (''bad document'', exts) :: (string \<times> string list) + string"
  have g1: "?g ''hi'' extensions = Inl ''conflict''" by (simp add: extensions_def)
  have g2: "?g ''hi'' safe_extensions = Inr ''<p>hi</p>''" by (simp add: safe_extensions_def)
  show ?thesis
    using md_to_html_two_tier [of ?f "''hi''"] md_to_html_two_tier [of ?g "''hi''"]
      md_to_html_two_tier [of ?h "''hi''"] g1 g2
    by simp
qed

section \<open>Anchor link checker (check\_links.py)\<close>













definition ids_of :: "(string \<rightharpoonup> string set) \<Rightarrow> string \<Rightarrow> string set" where
  \<comment> \<open>\<open>ids_by_file.get(target_file, set())\<close>\<close>
  "ids_of ids target_file = (case ids target_file of Some s \<Rightarrow> s | None \<Rightarrow> {})"





text \<open>
  The diagnostic of a broken link: the first three ids of the target page, in sorted
  order, that start with the anchor's text in front of its first hyphen.
\<close>

definition close_ids :: "(string \<rightharpoonup> string set) \<Rightarrow> string \<times> string \<times> string \<Rightarrow> string list" where
  "close_ids ids b =
     (case b of (src, tgt, anchor) \<Rightarrow>
        (let actual_ids = sorted_list_of_set (ids_of ids tgt)
         in take 3 (filter (\<lambda>x. startswith x (takeWhile (\<lambda>c. c \<noteq> CHR ''-'') anchor)) actual_ids)))"


section \<open>Properties of the checker\<close>






lemma close_ids_example:
  \<open>close_ids [''B.html'' \<mapsto> {''other-id'', ''other'', ''zeta'', ''otter-1'', ''other-b'', ''other-a''}]
     (''A.html'', ''B.html'', ''other-x'') = [''other'', ''other-a'', ''other-b'']\<close>
  by code_simp

end
